theory Spec2Isabelle
  imports Main "HOL-Library.Word"
begin

unbundle bit_operations_syntax

section \<open>Bytes and protocol constants\<close>

text \<open>
  The module \<^verbatim>\<open>carveracontroller/XMODEM.py\<close> moves Python \<^verbatim>\<open>bytes\<close> objects over a
  duplex transport.  One element of a \<^verbatim>\<open>bytes\<close> object is an integer in 0..255 and is
  modelled as an 8-bit word; Python's unbounded integers are \<^typ>\<open>int\<close>.
\<close>

type_synonym byte = "8 word"

definition SOH :: byte where "SOH = 0x01"
definition STX :: byte where "STX = 0x02"
definition EOT :: byte where "EOT = 0x04"
definition ACK :: byte where "ACK = 0x06"
definition DLE :: byte where "DLE = 0x10"
definition NAK :: byte where "NAK = 0x15"
definition CAN :: byte where "CAN = 0x16"
definition CRC :: byte where "CRC = 0x43"

lemmas ctl_defs = SOH_def STX_def EOT_def ACK_def DLE_def NAK_def CAN_def CRC_def

section \<open>Checksum and CRC engine\<close>

text \<open>The class attribute \<^verbatim>\<open>crctable\<close> (lines 151-184), copied entry by entry.\<close>

definition crctable :: "int list" where
  "crctable = [
     0x0000, 0x1021, 0x2042, 0x3063, 0x4084, 0x50a5, 0x60c6, 0x70e7,
     0x8108, 0x9129, 0xa14a, 0xb16b, 0xc18c, 0xd1ad, 0xe1ce, 0xf1ef,
     0x1231, 0x0210, 0x3273, 0x2252, 0x52b5, 0x4294, 0x72f7, 0x62d6,
     0x9339, 0x8318, 0xb37b, 0xa35a, 0xd3bd, 0xc39c, 0xf3ff, 0xe3de,
     0x2462, 0x3443, 0x0420, 0x1401, 0x64e6, 0x74c7, 0x44a4, 0x5485,
     0xa56a, 0xb54b, 0x8528, 0x9509, 0xe5ee, 0xf5cf, 0xc5ac, 0xd58d,
     0x3653, 0x2672, 0x1611, 0x0630, 0x76d7, 0x66f6, 0x5695, 0x46b4,
     0xb75b, 0xa77a, 0x9719, 0x8738, 0xf7df, 0xe7fe, 0xd79d, 0xc7bc,
     0x48c4, 0x58e5, 0x6886, 0x78a7, 0x0840, 0x1861, 0x2802, 0x3823,
     0xc9cc, 0xd9ed, 0xe98e, 0xf9af, 0x8948, 0x9969, 0xa90a, 0xb92b,
     0x5af5, 0x4ad4, 0x7ab7, 0x6a96, 0x1a71, 0x0a50, 0x3a33, 0x2a12,
     0xdbfd, 0xcbdc, 0xfbbf, 0xeb9e, 0x9b79, 0x8b58, 0xbb3b, 0xab1a,
     0x6ca6, 0x7c87, 0x4ce4, 0x5cc5, 0x2c22, 0x3c03, 0x0c60, 0x1c41,
     0xedae, 0xfd8f, 0xcdec, 0xddcd, 0xad2a, 0xbd0b, 0x8d68, 0x9d49,
     0x7e97, 0x6eb6, 0x5ed5, 0x4ef4, 0x3e13, 0x2e32, 0x1e51, 0x0e70,
     0xff9f, 0xefbe, 0xdfdd, 0xcffc, 0xbf1b, 0xaf3a, 0x9f59, 0x8f78,
     0x9188, 0x81a9, 0xb1ca, 0xa1eb, 0xd10c, 0xc12d, 0xf14e, 0xe16f,
     0x1080, 0x00a1, 0x30c2, 0x20e3, 0x5004, 0x4025, 0x7046, 0x6067,
     0x83b9, 0x9398, 0xa3fb, 0xb3da, 0xc33d, 0xd31c, 0xe37f, 0xf35e,
     0x02b1, 0x1290, 0x22f3, 0x32d2, 0x4235, 0x5214, 0x6277, 0x7256,
     0xb5ea, 0xa5cb, 0x95a8, 0x8589, 0xf56e, 0xe54f, 0xd52c, 0xc50d,
     0x34e2, 0x24c3, 0x14a0, 0x0481, 0x7466, 0x6447, 0x5424, 0x4405,
     0xa7db, 0xb7fa, 0x8799, 0x97b8, 0xe75f, 0xf77e, 0xc71d, 0xd73c,
     0x26d3, 0x36f2, 0x0691, 0x16b0, 0x6657, 0x7676, 0x4615, 0x5634,
     0xd94c, 0xc96d, 0xf90e, 0xe92f, 0x99c8, 0x89e9, 0xb98a, 0xa9ab,
     0x5844, 0x4865, 0x7806, 0x6827, 0x18c0, 0x08e1, 0x3882, 0x28a3,
     0xcb7d, 0xdb5c, 0xeb3f, 0xfb1e, 0x8bf9, 0x9bd8, 0xabbb, 0xbb9a,
     0x4a75, 0x5a54, 0x6a37, 0x7a16, 0x0af1, 0x1ad0, 0x2ab3, 0x3a92,
     0xfd2e, 0xed0f, 0xdd6c, 0xcd4d, 0xbdaa, 0xad8b, 0x9de8, 0x8dc9,
     0x7c26, 0x6c07, 0x5c64, 0x4c45, 0x3ca2, 0x2c83, 0x1ce0, 0x0cc1,
     0xef1f, 0xff3e, 0xcf5d, 0xdf7c, 0xaf9b, 0xbfba, 0x8fd9, 0x9ff8,
     0x6e17, 0x7e36, 0x4e55, 0x5e74, 0x2e93, 0x3eb2, 0x0ed1, 0x1ef0
   ]"

text \<open>
  \<^verbatim>\<open>calc_checksum(data, checksum=0)\<close>: \<^verbatim>\<open>(sum(data) + checksum) % 256\<close>.
\<close>

definition calc_checksum :: "byte list \<Rightarrow> int \<Rightarrow> int" where
  "calc_checksum data checksum = (sum_list (map uint data) + checksum) mod 256"

text \<open>
  \<^verbatim>\<open>calc_crc(data, crc=0)\<close>: the loop over the bytes of \<^verbatim>\<open>data\<close>, on Python integers,
  with both masks written as in the source.  The index into the table is masked with
  \<^verbatim>\<open>0xff\<close>, so the lookup is always inside the 256 entries.
\<close>

fun calc_crc :: "byte list \<Rightarrow> int \<Rightarrow> int" where
  "calc_crc [] crc = crc AND 0xffff"
| "calc_crc (char # data) crc =
     (let crctbl_idx = (drop_bit 8 crc XOR uint char) AND 0xff
      in calc_crc data ((push_bit 8 crc XOR crctable ! nat crctbl_idx) AND 0xffff))"

text \<open>
  The reference the specification names: the bitwise CCITT/XMODEM CRC with polynomial
  \<^verbatim>\<open>0x1021\<close> on a 16-bit register, most significant bit first.  Each input byte is
  XORed into the high byte of the register, then the register is shifted left eight
  times, XORing the polynomial in whenever the bit shifted out was set.  This definition
  follows the specification's words, not the source; the source is \<^const>\<open>calc_crc\<close>.
\<close>

definition crc_shift :: "16 word \<Rightarrow> 16 word" where
  "crc_shift c = (if bit c 15 then push_bit 1 c XOR 0x1021 else push_bit 1 c)"

definition crc_ref_byte :: "16 word \<Rightarrow> byte \<Rightarrow> 16 word" where
  "crc_ref_byte c b = (crc_shift ^^ 8) (c XOR push_bit 8 (ucast b))"

fun crc_ref :: "byte list \<Rightarrow> 16 word \<Rightarrow> 16 word" where
  "crc_ref [] c = c"
| "crc_ref (b # bs) c = crc_ref bs (crc_ref_byte c b)"


section \<open>Transport, session and errors\<close>

text \<open>
  The callables \<^verbatim>\<open>getc\<close> and \<^verbatim>\<open>putc\<close> are supplied by the caller (the docstring's
  example wraps a serial port: \<^verbatim>\<open>ser.read(size) or None\<close>).  They are modelled by a
  transport state:
  \<^item> \<open>rx\<close> is what the peer will deliver, in order: \<open>Some b\<close> is a byte that arrives,
    \<open>None\<close> is a silent period that makes one read time out.  An empty \<open>rx\<close> times out
    for ever.
  \<^item> \<open>tx\<close> records the argument of every \<^verbatim>\<open>putc\<close> call, in order.
  \<^item> \<open>wr\<close> gives the truth value that the next \<^verbatim>\<open>putc\<close> calls return (a falsy result is a
    write that timed out); once it is used up every write is accepted.
  Timeouts and delays in seconds are not modelled; a read that would time out returns
  \<open>None\<close>.  Logging, printing and the optional progress callback leave the protocol
  state alone and are left out.
\<close>

record transport =
  rx :: "byte option list"
  tx :: "byte list list"
  wr :: "bool list"

fun rx_take :: "nat \<Rightarrow> byte option list \<Rightarrow> byte list \<times> byte option list" where
  "rx_take 0 q = ([], q)"
| "rx_take (Suc n) [] = ([], [])"
| "rx_take (Suc n) (None # q) = ([], None # q)"
| "rx_take (Suc n) (Some b # q) = (case rx_take n q of (bs, q') \<Rightarrow> (b # bs, q'))"

text \<open>\<^verbatim>\<open>getc(n)\<close>: up to \<open>n\<close> bytes that are there, or \<open>None\<close>.\<close>

definition getc :: "nat \<Rightarrow> transport \<Rightarrow> byte list option \<times> transport" where
  "getc n t =
     (case rx t of
        [] \<Rightarrow> (None, t)
      | None # q \<Rightarrow> (None, t\<lparr>rx := q\<rparr>)
      | Some b # q \<Rightarrow>
          (case rx_take n (rx t) of
             (bs, q') \<Rightarrow> if bs = [] then (None, t) else (Some bs, t\<lparr>rx := q'\<rparr>)))"

text \<open>\<^verbatim>\<open>getc(1)\<close>: one byte or \<open>None\<close>.\<close>

definition getc1 :: "transport \<Rightarrow> byte option \<times> transport" where
  "getc1 t =
     (case rx t of
        [] \<Rightarrow> (None, t)
      | None # q \<Rightarrow> (None, t\<lparr>rx := q\<rparr>)
      | Some b # q \<Rightarrow> (Some b, t\<lparr>rx := q\<rparr>))"

text \<open>\<^verbatim>\<open>putc(data)\<close> with its result, and with its result ignored.\<close>

definition putc :: "byte list \<Rightarrow> transport \<Rightarrow> bool \<times> transport" where
  "putc data t =
     (case wr t of
        [] \<Rightarrow> (True, t\<lparr>tx := tx t @ [data]\<rparr>)
      | ok # w \<Rightarrow> (ok, t\<lparr>tx := tx t @ [data], wr := w\<rparr>))"

definition put :: "byte list \<Rightarrow> transport \<Rightarrow> transport" where
  "put data t = snd (putc data t)"

text \<open>\<^verbatim>\<open>abort(count=2)\<close>: \<open>count\<close> times \<^verbatim>\<open>putc(CAN)\<close>.\<close>

fun abort :: "nat \<Rightarrow> transport \<Rightarrow> transport" where
  "abort 0 t = t"
| "abort (Suc count) t = abort count (put [CAN] t)"

lemma getc1_rx_length:
  "getc1 t = (c, t') \<Longrightarrow> length (rx t') + (if c = None then 0 else 1) \<le> length (rx t)"
  by (auto simp add: getc1_def split: list.splits option.splits)

lemma getc1_Some_rx_length: "getc1 t = (Some b, t') \<Longrightarrow> length (rx t') < length (rx t)"
  using getc1_rx_length [of t "Some b" t'] by simp

text \<open>
  The drain loops \<^verbatim>\<open>while self.getc(1, timeout): pass\<close> (lines 304, 519, 619) and
  \<^verbatim>\<open>while True: if self.getc(1, timeout) == None: break\<close> (lines 566, 637): read single
  bytes until a read times out.
\<close>

function drain :: "transport \<Rightarrow> transport" where
  "drain t = (case getc1 t of (None, t') \<Rightarrow> t' | (Some b, t') \<Rightarrow> drain t')"
  by pat_completeness auto
termination
  by (relation "measure (\<lambda>t. length (rx t))") (auto dest: getc1_Some_rx_length [OF sym])

declare drain.simps [simp del]

text \<open>The three \<^verbatim>\<open>putc(CAN)\<close> calls and the drain of the local-cancel and md5-equal paths.\<close>

definition cancel_and_drain :: "transport \<Rightarrow> transport" where
  "cancel_and_drain t = drain (put [CAN] (put [CAN] (put [CAN] t)))"

text \<open>The fields that \<^verbatim>\<open>__init__\<close> sets and the protocol reads (lines 186-193).\<close>

record session =
  mode :: string
  mode_set :: bool
  pad :: byte
  canceled :: bool

definition clear_mode_set :: "session \<Rightarrow> session" where
  "clear_mode_set s = s\<lparr>mode_set := False\<rparr>"

datatype pyerr = ValueError | IndexError | AssertionError

text \<open>
  \<^verbatim>\<open>dict(xmodem=128, xmodem8k=8192)[self.mode]\<close>; \<open>None\<close> is the \<^verbatim>\<open>KeyError\<close> that both
  callers turn into \<^verbatim>\<open>ValueError\<close>.
\<close>

definition packet_size_of :: "string \<Rightarrow> nat option" where
  "packet_size_of m =
     (if m = ''xmodem'' then Some 128 else if m = ''xmodem8k'' then Some 8192 else None)"

definition is_stx_of :: "nat \<Rightarrow> nat" where
  "is_stx_of packet_size = (if packet_size > 255 then 1 else 0)"

section \<open>Packet framing\<close>

text \<open>
  \<^verbatim>\<open>_make_send_header\<close> (lines 384-392).  \<^verbatim>\<open>bytearray\<close> refuses an element outside
  0..255, which is what happens to a sequence above 255.
\<close>

definition make_send_header :: "nat \<Rightarrow> nat \<Rightarrow> pyerr + byte list" where
  "make_send_header packet_size sequence =
     (if packet_size \<noteq> 128 \<and> packet_size \<noteq> 8192 then Inl AssertionError
      else if 255 < sequence then Inl ValueError
      else Inr [if packet_size = 128 then SOH else STX, of_nat sequence, of_nat (0xff - sequence)])"

text \<open>\<^verbatim>\<open>data.ljust(width, fill)\<close> on bytes.\<close>

definition ljust :: "nat \<Rightarrow> byte \<Rightarrow> byte list \<Rightarrow> byte list" where
  "ljust width fill data = data @ replicate (width - length data) fill"

text \<open>
  Lines 323-326 of \<^verbatim>\<open>send\<close>: the length prefix (one byte, or two bytes most significant
  first) joined with the padded data.  \<^verbatim>\<open>bytes([len(data) >> 8, ...])\<close> raises
  \<^verbatim>\<open>ValueError\<close> when the high part does not fit a byte.
\<close>

definition send_payload :: "nat \<Rightarrow> nat \<Rightarrow> byte \<Rightarrow> byte list \<Rightarrow> pyerr + byte list" where
  "send_payload is_stx packet_size padc data =
     (if is_stx = 0 then Inr (of_nat (length data AND 0xff) # ljust packet_size padc data)
      else if 255 < drop_bit 8 (length data) then Inl ValueError
      else Inr ([of_nat (drop_bit 8 (length data)), of_nat (length data AND 0xff)]
                @ ljust packet_size padc data))"

text \<open>
  \<^verbatim>\<open>_make_send_checksum\<close> (lines 394-402).  \<^const>\<open>calc_crc\<close> returns a value masked
  with \<^verbatim>\<open>0xffff\<close> and \<^const>\<open>calc_checksum\<close> a value modulo 256, so every element
  fits a byte.
\<close>

definition make_send_checksum :: "nat \<Rightarrow> byte list \<Rightarrow> byte list" where
  "make_send_checksum crc_mode data =
     (if crc_mode \<noteq> 0
      then (let crc = calc_crc data 0 in [of_int (drop_bit 8 crc), of_int (crc AND 0xff)])
      else [of_int (calc_checksum data 0)])"

text \<open>
  The packet that \<^verbatim>\<open>send\<close> writes for one block: lines 322-327 and the concatenation
  \<^verbatim>\<open>header + data + checksum\<close> of line 332.
\<close>

definition encode :: "nat \<Rightarrow> byte list \<Rightarrow> nat \<Rightarrow> byte \<Rightarrow> nat \<Rightarrow> pyerr + byte list" where
  "encode sequence data packet_size padc crc_mode =
     (case make_send_header packet_size sequence of
        Inl e \<Rightarrow> Inl e
      | Inr header \<Rightarrow>
          (case send_payload (is_stx_of packet_size) packet_size padc data of
             Inl e \<Rightarrow> Inl e
           | Inr payload \<Rightarrow> Inr (header @ payload @ make_send_checksum crc_mode payload)))"

text \<open>
  \<^verbatim>\<open>_verify_recv_checksum\<close> (lines 650-673).  Indexing the trailer raises
  \<^verbatim>\<open>IndexError\<close> when the data read is shorter than the trailer.
\<close>

definition verify_recv_checksum :: "nat \<Rightarrow> byte list \<Rightarrow> pyerr + (bool \<times> byte list)" where
  "verify_recv_checksum crc_mode data =
     (if crc_mode \<noteq> 0 then
        (if length data < 2 then Inl IndexError
         else
           (let checksum = drop (length data - 2) data;
                their_sum = push_bit 8 (uint (checksum ! 0)) + uint (checksum ! 1);
                data' = take (length data - 2) data;
                our_sum = calc_crc data' 0
            in Inr (their_sum = our_sum, data')))
      else
        (if data = [] then Inl IndexError
         else
           (let their_sum = uint (last data);
                data' = butlast data;
                our_sum = calc_checksum data' 0
            in Inr (their_sum = our_sum, data'))))"

text \<open>
  Lines 624-625 of \<^verbatim>\<open>recv\<close>: the declared length read from the prefix and the slice
  \<^verbatim>\<open>data[1 + is_stx : data_len + 1 + is_stx]\<close> that goes to the stream.  Indexing the
  prefix raises \<^verbatim>\<open>IndexError\<close> when it is not there; the slice never raises.
\<close>

definition recv_content :: "nat \<Rightarrow> byte list \<Rightarrow> pyerr + byte list" where
  "recv_content is_stx data =
     (if is_stx \<noteq> 0 then
        (if length data < 2 then Inl IndexError
         else
           (let data_len = push_bit 8 (unat (data ! 0)) OR unat (data ! 1)
            in Inr (take data_len (drop (1 + is_stx) data))))
      else
        (if data = [] then Inl IndexError
         else (let data_len = unat (data ! 0) in Inr (take data_len (drop (1 + is_stx) data)))))"


section \<open>The sender\<close>

text \<open>
  The results of \<^verbatim>\<open>send\<close> are Python's \<^verbatim>\<open>True\<close>, \<^verbatim>\<open>False\<close> and \<^verbatim>\<open>None\<close>:
  \<open>Some True\<close>, \<open>Some False\<close> and \<open>None\<close>.  Its docstring: "Returns True upon successful
  transmission or False in case of failure or None incase of canceled".

  The start sequence (lines 256-290).  A loop that breaks returns \<open>Inr\<close> with the
  variables that live on (\<^verbatim>\<open>crc_mode\<close>, \<^verbatim>\<open>cancel\<close>); a \<^verbatim>\<open>return\<close> inside the loop is
  \<open>Inl\<close>.
\<close>

function send_start ::
  "int \<Rightarrow> int \<Rightarrow> bool \<Rightarrow> transport \<Rightarrow> (bool option \<times> transport) + (nat \<times> bool \<times> transport)"
where
  "send_start retry error_count cancel t =
     (case getc1 t of
        (char, t1) \<Rightarrow>
          if char = Some NAK then Inr (0, cancel, t1)
          else if char = Some CRC then Inr (1, cancel, t1)
          else if char = Some CAN \<and> cancel then Inl (None, t1)
          else if char = Some EOT then Inl (Some False, t1)
          else if error_count + 1 > retry then Inl (Some False, abort 2 t1)
          else send_start retry (error_count + 1) (cancel \<or> char = Some CAN) t1)"
  by pat_completeness auto
termination
  by (relation "measure (\<lambda>(retry, error_count, cancel, t). nat (retry + 1 - error_count))") auto

declare send_start.simps [simp del]

text \<open>
  The loop that emits one packet (lines 330-359).  It is entered with
  \<^verbatim>\<open>error_count = 0\<close> for every block: line 293 before the first, line 338 after each
  acknowledged one.
\<close>

function send_packet ::
  "int \<Rightarrow> byte list \<Rightarrow> int \<Rightarrow> bool \<Rightarrow> transport \<Rightarrow> (bool option \<times> transport) + (bool \<times> transport)"
where
  "send_packet retry packet error_count cancel t =
     (case getc1 (put packet t) of
        (char, t1) \<Rightarrow>
          if char = Some ACK then Inr (cancel, t1)
          else if char = Some CAN \<and> cancel then Inl (Some False, t1)
          else if error_count + 1 > retry then Inl (Some False, abort 2 t1)
          else send_packet retry packet (error_count + 1) (cancel \<or> char = Some CAN) t1)"
  by pat_completeness auto
termination
  by (relation "measure (\<lambda>(retry, packet, error_count, cancel, t). nat (retry + 1 - error_count))")
    auto

declare send_packet.simps [simp del]

text \<open>
  The loop over the blocks (lines 299-362).  \<open>stream\<close> is what is left of the source
  stream, \<^verbatim>\<open>stream.read(packet_size)\<close> takes its first \<open>packet_size\<close> bytes; \<open>md5\<close> is
  \<^verbatim>\<open>md5.encode()\<close>.  The result of a \<^verbatim>\<open>return\<close> or a raise is \<open>Inl\<close>, the break at the
  end of the stream is \<open>Inr\<close>.
\<close>

function send_blocks ::
  "int \<Rightarrow> nat \<Rightarrow> nat \<Rightarrow> byte list \<Rightarrow> nat \<Rightarrow> bool \<Rightarrow> bool \<Rightarrow> session \<Rightarrow> byte list \<Rightarrow> transport \<Rightarrow>
     ((pyerr + bool option) \<times> session \<times> byte list \<times> transport) + (session \<times> byte list \<times> transport)"
where
  "send_blocks retry packet_size crc_mode md5 sequence md5_sent cancel ses stream t =
     (if canceled ses
      then Inl (Inr None, ses\<lparr>canceled := False\<rparr>, stream, cancel_and_drain t)
      else
        (case (if \<not> md5_sent \<and> sequence = 0 then (md5, True, stream)
               else (take packet_size stream, md5_sent, drop packet_size stream)) of
           (data, md5_sent', stream') \<Rightarrow>
             if data = [] then Inr (ses, stream', t)
             else
               (case encode sequence data packet_size (pad ses) crc_mode of
                  Inl e \<Rightarrow> Inl (Inl e, ses, stream', t)
                | Inr packet \<Rightarrow>
                    (case send_packet retry packet 0 cancel t of
                       Inl (r, t') \<Rightarrow> Inl (Inr r, ses, stream', t')
                     | Inr (cancel', t') \<Rightarrow>
                         send_blocks retry packet_size crc_mode md5 ((sequence + 1) mod 0x100)
                           md5_sent' cancel' ses stream' t'))))"
  by pat_completeness auto
termination
  by (relation "measure (\<lambda>(retry, packet_size, crc_mode, md5, sequence, md5_sent, cancel, ses, stream, t).
        length stream + (if md5_sent then 0 else 1))")
    (auto split: if_splits)

declare send_blocks.simps [simp del]

text \<open>The end of the transmission (lines 364-379).\<close>

function send_eot :: "int \<Rightarrow> int \<Rightarrow> transport \<Rightarrow> bool option \<times> transport" where
  "send_eot retry error_count t =
     (case getc1 (put [EOT] t) of
        (char, t1) \<Rightarrow>
          if char = Some ACK then (Some True, t1)
          else if error_count + 1 > retry then (Some False, abort 2 t1)
          else send_eot retry (error_count + 1) t1)"
  by pat_completeness auto
termination
  by (relation "measure (\<lambda>(retry, error_count, t). nat (retry + 1 - error_count))") auto

declare send_eot.simps [simp del]

text \<open>
  \<^verbatim>\<open>send(stream, md5, retry)\<close>.  The result comes with the session, the rest of the
  source stream and the transport as the call leaves them.
\<close>

definition send ::
  "session \<Rightarrow> byte list \<Rightarrow> byte list \<Rightarrow> int \<Rightarrow> transport \<Rightarrow>
     (pyerr + bool option) \<times> session \<times> byte list \<times> transport"
where
  "send ses stream md5 retry t =
     (case packet_size_of (mode ses) of
        None \<Rightarrow> (Inl ValueError, ses, stream, t)
      | Some packet_size \<Rightarrow>
          (case send_start retry 0 False t of
             Inl (r, t1) \<Rightarrow> (Inr r, ses, stream, t1)
           | Inr (crc_mode, cancel, t1) \<Rightarrow>
               (case send_blocks retry packet_size crc_mode md5 0 False cancel ses stream t1 of
                  Inl r \<Rightarrow> r
                | Inr (ses', stream', t2) \<Rightarrow>
                    (case send_eot retry 0 t2 of (r, t3) \<Rightarrow> (Inr r, ses', stream', t3)))))"


section \<open>The receiver\<close>

text \<open>
  The results of \<^verbatim>\<open>recv\<close> are Python's \<^verbatim>\<open>None\<close> and integers.  Its docstring:
  "Returns the number of bytes received on success or None in case of failure or -1 in
  case of canceled or 0 in case of md5 equal".

  The start sequence (lines 444-491).  \<open>crc_mode\<close> is the caller's integer flag, which
  the code also adds to the sizes of its reads.
\<close>

function recv_start ::
  "int \<Rightarrow> nat \<Rightarrow> int \<Rightarrow> bool \<Rightarrow> session \<Rightarrow> transport \<Rightarrow>
     (int option \<times> session \<times> transport) + (byte \<times> nat \<times> session \<times> transport)"
where
  "recv_start retry crc_mode error_count cancel ses t =
     (if error_count \<ge> retry then Inl (None, ses, abort 2 t)
      else
        (case (if crc_mode \<noteq> 0 \<and> error_count < retry div 2
               then (crc_mode, putc [CRC] t) else (0, putc [NAK] t)) of
           (crc_mode', ok, t1) \<Rightarrow>
             (case getc1 t1 of
                (char, t2) \<Rightarrow>
                  (let error_count' = (if \<not> ok then error_count + 1 else error_count)
                   in if char = None
                      then recv_start retry crc_mode' (error_count' + 1) cancel ses t2
                      else if char = Some SOH
                      then Inr (SOH, crc_mode',
                             (if \<not> mode_set ses then ses\<lparr>mode := ''xmodem'', mode_set := True\<rparr>
                              else ses), t2)
                      else if char = Some STX
                      then Inr (STX, crc_mode',
                             (if \<not> mode_set ses then ses\<lparr>mode := ''xmodem8k'', mode_set := True\<rparr>
                              else ses), t2)
                      else if char = Some CAN
                      then (if cancel then Inl (None, ses, t2)
                            else recv_start retry crc_mode' error_count' True ses t2)
                      else recv_start retry crc_mode' (error_count' + 1) cancel ses t2))))"
  by pat_completeness auto
termination
  by (relation "measures [\<lambda>(retry, crc_mode, error_count, cancel, ses, t). nat (retry - error_count),
                          \<lambda>(retry, crc_mode, error_count, cancel, ses, t). (if cancel then 0 else 1)]")
    (auto split: if_splits)

declare recv_start.simps [simp del]

text \<open>
  The wait for a start byte at the top of the loop over the blocks (lines 524-571).
  It is entered with \<^verbatim>\<open>error_count = 0\<close> and \<^verbatim>\<open>cancel = 0\<close> in every round: lines
  494 and 510 before the first, lines 574 and 575 before each later one.  The break is
  \<open>Inr\<close>.  In the branch for \<^verbatim>\<open>CAN\<close> no byte is read: the loop goes round with the same
  \<open>char\<close>.
\<close>

function recv_await ::
  "int \<Rightarrow> int \<Rightarrow> int \<Rightarrow> bool \<Rightarrow> byte option \<Rightarrow> transport \<Rightarrow> (int option \<times> transport) + transport"
where
  "recv_await retry income_size error_count cancel char t =
     (if char = Some SOH \<or> char = Some STX then Inr t
      else if char = Some EOT then Inl (Some income_size, put [ACK] t)
      else if char = Some CAN
      then (if cancel then Inl (None, t)
            else recv_await retry income_size error_count True char t)
      else if char = None
      then (if error_count + 1 > retry then Inl (None, abort 2 t)
            else (case getc1 t of
                    (char', t') \<Rightarrow> recv_await retry income_size (error_count + 1) cancel char' t'))
      else (if error_count + 1 > retry then Inl (None, abort 2 t)
            else (case getc1 (put [NAK] (drain t)) of
                    (char', t') \<Rightarrow> recv_await retry income_size (error_count + 1) cancel char' t')))"
  by pat_completeness auto
termination
  by (relation "measures [\<lambda>(retry, income_size, error_count, cancel, char, t). nat (retry + 1 - error_count),
                          \<lambda>(retry, income_size, error_count, cancel, char, t). (if cancel then 0 else 1)]")
    auto

declare recv_await.simps [simp del]

text \<open>
  The variables of \<^verbatim>\<open>recv\<close> that live from one round of the loop over the blocks to
  the next, with the session, the output stream (what has been written to it) and the
  transport.
\<close>

record rstate =
  r_char :: "byte option"
  r_sequence :: nat
  r_retrans :: int
  r_md5_received :: bool
  r_income_size :: int
  r_session :: session
  r_stream :: "byte list"
  r_transport :: transport

text \<open>The two sequence bytes (lines 577-588): \<^verbatim>\<open>seq1\<close> and \<^verbatim>\<open>seq2\<close>, each an integer or \<^verbatim>\<open>None\<close>.\<close>

definition recv_read_seq :: "transport \<Rightarrow> (int option \<times> int option) \<times> transport" where
  "recv_read_seq t =
     (case getc1 t of
        (None, t1) \<Rightarrow> ((None, None), t1)
      | (Some b1, t1) \<Rightarrow>
          (case getc1 t1 of
             (None, t2) \<Rightarrow> ((Some (uint b1), None), t2)
           | (Some b2, t2) \<Rightarrow> ((Some (uint b1), Some (0xff - uint b2)), t2)))"

text \<open>Line 597: the read whose result is thrown away when the sequence bytes are wrong.\<close>

definition recv_skip_block :: "nat \<Rightarrow> nat \<Rightarrow> transport \<Rightarrow> transport" where
  "recv_skip_block packet_size crc_mode t = snd (getc (2 + packet_size + 1 + crc_mode) t)"

text \<open>The request for a retransmission (lines 636-648).\<close>

definition recv_retransmit :: "rstate \<Rightarrow> transport \<Rightarrow> ((pyerr + int option) \<times> rstate) + rstate" where
  "recv_retransmit st t =
     (let t1 = drain t;
          retrans = r_retrans st - 1
      in if retrans \<le> 0
         then Inl (Inr None, st\<lparr>r_retrans := retrans, r_transport := abort 2 t1\<rparr>)
         else (case getc1 (put [NAK] t1) of
                 (char, t2) \<Rightarrow> Inr (st\<lparr>r_retrans := retrans, r_char := char, r_transport := t2\<rparr>)))"

text \<open>
  A block whose trailer verified (lines 611-633); \<open>data\<close> is what
  \<^const>\<open>verify_recv_checksum\<close> returned, the bytes read without the trailer.
\<close>

definition recv_ack :: "rstate \<Rightarrow> transport \<Rightarrow> rstate" where
  "recv_ack st t =
     (case getc1 (put [ACK] t) of
        (char, t1) \<Rightarrow>
          st\<lparr>r_sequence := (r_sequence st + 1) mod 0x100, r_char := char, r_transport := t1\<rparr>)"

definition recv_valid ::
  "int \<Rightarrow> nat \<Rightarrow> byte list \<Rightarrow> byte list \<Rightarrow> rstate \<Rightarrow> transport \<Rightarrow> ((pyerr + int option) \<times> rstate) + rstate"
where
  "recv_valid retry is_stx md5 data st t =
     (if r_sequence st = 0 \<and> \<not> r_md5_received st
      then
        (if md5 = take 32 (drop (1 + is_stx) data)
         then Inl (Inr (Some 0),
                st\<lparr>r_retrans := retry + 1, r_md5_received := True,
                   r_transport := cancel_and_drain t\<rparr>)
         else Inr (recv_ack (st\<lparr>r_retrans := retry + 1, r_md5_received := True\<rparr>) t))
      else
        (case recv_content is_stx data of
           Inl e \<Rightarrow> Inl (Inl e, st\<lparr>r_retrans := retry + 1, r_transport := t\<rparr>)
         | Inr content \<Rightarrow>
             Inr (recv_ack
                   (st\<lparr>r_retrans := retry + 1,
                      r_income_size := r_income_size st + int (length data) - 1 - int is_stx,
                      r_stream := r_stream st @ content\<rparr>) t)))"

text \<open>
  Lines 577-607: the sequence bytes, the read of the block and the check of its trailer.
  \<open>Some data\<close> is a block that verified (\<open>data\<close> without its trailer), \<open>None\<close> is
  every case in which the code goes on to request a retransmission.
\<close>

definition recv_block ::
  "nat \<Rightarrow> nat \<Rightarrow> nat \<Rightarrow> transport \<Rightarrow> (pyerr + byte list option) \<times> transport"
where
  "recv_block crc_mode packet_size sequence t =
     (case recv_read_seq t of
        ((seq1, seq2), t1) \<Rightarrow>
          if \<not> (seq1 = seq2 \<and> seq2 = Some (int sequence))
          then (Inr None, recv_skip_block packet_size crc_mode t1)
          else
            (case getc (1 + is_stx_of packet_size + packet_size + 1 + crc_mode) t1 of
               (None, t2) \<Rightarrow> (Inr None, t2)
             | (Some data, t2) \<Rightarrow>
                 (case verify_recv_checksum crc_mode data of
                    Inl e \<Rightarrow> (Inl e, t2)
                  | Inr (valid, data') \<Rightarrow> (Inr (if valid then Some data' else None), t2))))"

text \<open>One round of the loop over the blocks (lines 514-648).\<close>

definition recv_iter ::
  "int \<Rightarrow> nat \<Rightarrow> nat \<Rightarrow> byte list \<Rightarrow> rstate \<Rightarrow> ((pyerr + int option) \<times> rstate) + rstate"
where
  "recv_iter retry crc_mode packet_size md5 st =
     (if canceled (r_session st)
      then Inl (Inr (Some (- 1)),
             st\<lparr>r_session := (r_session st)\<lparr>canceled := False\<rparr>,
                r_transport := cancel_and_drain (r_transport st)\<rparr>)
      else
        (case recv_await retry (r_income_size st) 0 False (r_char st) (r_transport st) of
           Inl (r, t) \<Rightarrow> Inl (Inr r, st\<lparr>r_transport := t\<rparr>)
         | Inr t \<Rightarrow>
             (case recv_block crc_mode packet_size (r_sequence st) t of
                (Inl e, t1) \<Rightarrow> Inl (Inl e, st\<lparr>r_transport := t1\<rparr>)
              | (Inr None, t1) \<Rightarrow> recv_retransmit st t1
              | (Inr (Some data), t1) \<Rightarrow>
                  recv_valid retry (is_stx_of packet_size) md5 data st t1)))"

subsection \<open>The loop over the blocks ends\<close>

text \<open>
  Every round of the loop over the blocks uses up input: the start byte it holds or
  something that is still to be read.  The transport delivers a finite input, so the
  number of items left, plus one for a start byte in hand, is a measure.
\<close>

lemma rx_take_split: "rx_take n q = (bs, q') \<Longrightarrow> q = map Some bs @ q'"
  by (induction n q arbitrary: bs q' rule: rx_take.induct) (auto split: prod.splits)

lemma rx_take_length: "rx_take n q = (bs, q') \<Longrightarrow> length bs + length q' = length q"
  by (drule rx_take_split) simp

lemma getc_rx_length: "getc n t = (r, t') \<Longrightarrow> length (rx t') \<le> length (rx t)"
  by (auto simp add: getc_def split: list.splits option.splits prod.splits if_splits
      dest!: rx_take_length)

lemma ctl_distinct [simp]:
  "SOH \<noteq> STX" "SOH \<noteq> EOT" "SOH \<noteq> ACK" "SOH \<noteq> NAK" "SOH \<noteq> CAN" "SOH \<noteq> CRC"
  "STX \<noteq> SOH" "STX \<noteq> EOT" "STX \<noteq> ACK" "STX \<noteq> NAK" "STX \<noteq> CAN" "STX \<noteq> CRC"
  "EOT \<noteq> SOH" "EOT \<noteq> STX" "EOT \<noteq> ACK" "EOT \<noteq> NAK" "EOT \<noteq> CAN" "EOT \<noteq> CRC"
  "ACK \<noteq> SOH" "ACK \<noteq> STX" "ACK \<noteq> EOT" "ACK \<noteq> NAK" "ACK \<noteq> CAN" "ACK \<noteq> CRC"
  "NAK \<noteq> SOH" "NAK \<noteq> STX" "NAK \<noteq> EOT" "NAK \<noteq> ACK" "NAK \<noteq> CAN" "NAK \<noteq> CRC"
  "CAN \<noteq> SOH" "CAN \<noteq> STX" "CAN \<noteq> EOT" "CAN \<noteq> ACK" "CAN \<noteq> NAK" "CAN \<noteq> CRC"
  "CRC \<noteq> SOH" "CRC \<noteq> STX" "CRC \<noteq> EOT" "CRC \<noteq> ACK" "CRC \<noteq> NAK" "CRC \<noteq> CAN"
  by (simp_all add: ctl_defs)

lemma rx_put [simp]: "rx (put d t) = rx t"
  by (simp add: put_def putc_def split: list.splits)

lemma rx_abort [simp]: "rx (abort n t) = rx t"
  by (induction n arbitrary: t) simp_all

lemma drain_rx_length: "length (rx (drain t)) \<le> length (rx t)"
proof (induction t rule: drain.induct)
  case (1 t)
  show ?case
  proof (cases "getc1 t")
    case (Pair c t')
    show ?thesis
    proof (cases c)
      case None
      with Pair getc1_rx_length [of t c t'] show ?thesis
        by (simp add: drain.simps [of t])
    next
      case (Some b)
      with Pair "1.IH" getc1_rx_length [of t c t'] show ?thesis
        by (simp add: drain.simps [of t])
    qed
  qed
qed

lemma recv_await_rx_length:
  "recv_await retry income_size error_count cancel char t = Inr t1 \<Longrightarrow>
     length (rx t1) + 1 \<le> length (rx t) + (if char = None then 0 else 1)"
proof (induction retry income_size error_count cancel char t rule: recv_await.induct)
  case (1 retry income_size error_count cancel char t)
  note unf = "1.prems" [unfolded recv_await.simps [of retry income_size error_count cancel char t]]
  show ?case
  proof (cases "char = Some SOH \<or> char = Some STX")
    case True
    with unf show ?thesis by auto
  next
    case start: False
    show ?thesis
    proof (cases "char = Some EOT")
      case True
      with start unf show ?thesis by simp
    next
      case eot: False
      show ?thesis
      proof (cases "char = Some CAN")
        case True
        with start eot unf "1.IH"(1) show ?thesis
          by (simp split: if_splits)
      next
        case can: False
        show ?thesis
        proof (cases "char = None")
          case True
          obtain c' t' where g: "getc1 t = (c', t')" by (cases "getc1 t")
          from True start eot can unf g
          have more: "\<not> error_count + 1 > retry"
            and r: "recv_await retry income_size (error_count + 1) cancel c' t' = Inr t1"
            by (auto split: if_splits)
          from "1.IH"(2) [OF start eot can True more g [symmetric] r]
          have "length (rx t1) + 1 \<le> length (rx t') + (if c' = None then 0 else 1)" .
          with getc1_rx_length [OF g] True show ?thesis by simp
        next
          case False
          obtain c' t' where g: "getc1 (put [NAK] (drain t)) = (c', t')"
            by (cases "getc1 (put [NAK] (drain t))")
          from False start eot can unf g
          have more: "\<not> error_count + 1 > retry"
            and r: "recv_await retry income_size (error_count + 1) cancel c' t' = Inr t1"
            by (auto split: if_splits)
          from "1.IH"(3) [OF start eot can False more g [symmetric] r]
          have "length (rx t1) + 1 \<le> length (rx t') + (if c' = None then 0 else 1)" .
          with getc1_rx_length [OF g] drain_rx_length [of t] False show ?thesis by simp
        qed
      qed
    qed
  qed
qed


definition rmeasure :: "rstate \<Rightarrow> nat" where
  "rmeasure st = length (rx (r_transport st)) + (if r_char st = None then 0 else 1)"

lemma recv_read_seq_rx_length: "recv_read_seq t = (sq, t') \<Longrightarrow> length (rx t') \<le> length (rx t)"
  by (auto simp add: recv_read_seq_def split: prod.splits option.splits
      dest!: getc1_rx_length)

lemma recv_skip_block_rx_length: "length (rx (recv_skip_block packet_size crc_mode t)) \<le> length (rx t)"
  using getc_rx_length [of "2 + packet_size + 1 + crc_mode" t]
  by (cases "getc (2 + packet_size + 1 + crc_mode) t") (simp add: recv_skip_block_def)

lemma recv_retransmit_measure: "recv_retransmit st t = Inr st' \<Longrightarrow> rmeasure st' \<le> length (rx t)"
  using drain_rx_length [of t]
  by (auto simp add: recv_retransmit_def rmeasure_def Let_def split: if_splits prod.splits
      dest!: getc1_rx_length)

lemma recv_ack_measure: "rmeasure (recv_ack st t) \<le> length (rx t)"
  by (auto simp add: recv_ack_def rmeasure_def split: prod.splits dest!: getc1_rx_length)

lemma recv_valid_measure:
  "recv_valid retry is_stx md5 data st t = Inr st' \<Longrightarrow> rmeasure st' \<le> length (rx t)"
  using recv_ack_measure
  by (auto simp add: recv_valid_def split: if_splits sum.splits)

lemma recv_block_rx_length:
  "recv_block crc_mode packet_size sequence t = (r, t') \<Longrightarrow> length (rx t') \<le> length (rx t)"
proof -
  assume rb: "recv_block crc_mode packet_size sequence t = (r, t')"
  obtain sq t1 where rs: "recv_read_seq t = (sq, t1)" by (cases "recv_read_seq t")
  have t1: "length (rx t1) \<le> length (rx t)" using rs by (rule recv_read_seq_rx_length)
  have "length (rx t') \<le> length (rx t1)"
    using rb rs recv_skip_block_rx_length [of packet_size crc_mode t1]
    by (auto simp add: recv_block_def split: if_splits sum.splits prod.splits option.splits
        dest!: getc_rx_length)
  with t1 show ?thesis by simp
qed

lemma recv_iter_measure:
  assumes "recv_iter retry crc_mode packet_size md5 st = Inr st'"
  shows "rmeasure st' < rmeasure st"
proof -
  from assms obtain t where aw: "recv_await retry (r_income_size st) 0 False (r_char st) (r_transport st) = Inr t"
    by (auto simp add: recv_iter_def split: if_splits sum.splits)
  obtain r t1 where rb: "recv_block crc_mode packet_size (r_sequence st) t = (r, t1)"
    by (cases "recv_block crc_mode packet_size (r_sequence st) t")
  have t: "length (rx t) < rmeasure st"
    using recv_await_rx_length [OF aw] by (simp add: rmeasure_def)
  have t1: "length (rx t1) \<le> length (rx t)" using rb by (rule recv_block_rx_length)
  have "rmeasure st' \<le> length (rx t1)"
    using assms aw rb
    by (auto simp add: recv_iter_def split: if_splits sum.splits prod.splits option.splits
        dest!: recv_retransmit_measure recv_valid_measure)
  with t t1 show ?thesis by simp
qed

text \<open>The loop over the blocks (lines 514-648): \<^const>\<open>recv_iter\<close> until it returns.\<close>

function recv_blocks ::
  "int \<Rightarrow> nat \<Rightarrow> nat \<Rightarrow> byte list \<Rightarrow> rstate \<Rightarrow> (pyerr + int option) \<times> rstate"
where
  "recv_blocks retry crc_mode packet_size md5 st =
     (case recv_iter retry crc_mode packet_size md5 st of
        Inl r \<Rightarrow> r
      | Inr st' \<Rightarrow> recv_blocks retry crc_mode packet_size md5 st')"
  by pat_completeness auto
termination
  by (relation "measure (\<lambda>(retry, crc_mode, packet_size, md5, st). rmeasure st)")
    (auto intro: recv_iter_measure)

declare recv_blocks.simps [simp del]

text \<open>
  \<^verbatim>\<open>recv(stream, md5, crc_mode, retry)\<close>.  \<open>stream\<close> is what the output stream holds
  before the call, \<open>md5\<close> is \<^verbatim>\<open>md5.encode()\<close>.  The result comes with the session, the
  output stream and the transport as the call leaves them.
\<close>

definition recv ::
  "session \<Rightarrow> byte list \<Rightarrow> byte list \<Rightarrow> nat \<Rightarrow> int \<Rightarrow> transport \<Rightarrow>
     (pyerr + int option) \<times> session \<times> byte list \<times> transport"
where
  "recv ses stream md5 crc_mode retry t =
     (case recv_start retry crc_mode 0 False ses t of
        Inl (r, ses', t') \<Rightarrow> (Inr r, ses', stream, t')
      | Inr (char, crc_mode', ses', t') \<Rightarrow>
          (case packet_size_of (mode ses') of
             None \<Rightarrow> (Inl ValueError, ses', stream, t')
           | Some packet_size \<Rightarrow>
               (case recv_blocks retry crc_mode' packet_size md5
                       \<lparr>r_char = Some char, r_sequence = 0, r_retrans = retry + 1,
                        r_md5_received = False, r_income_size = 0, r_session = ses',
                        r_stream = stream, r_transport = t'\<rparr> of
                  (r, st) \<Rightarrow> (r, r_session st, r_stream st, r_transport st))))"



section \<open>The CRC is the bitwise CCITT CRC\<close>

text \<open>
  One shift of the register is linear over XOR, so eight shifts of a register split into
  eight shifts of its high byte, which is what the table holds, and eight shifts of its
  low byte, which only move it up.
\<close>

lemma crc_shift_xor: "crc_shift (x XOR y) = crc_shift x XOR crc_shift y"
  unfolding crc_shift_def
  by (auto simp add: bit_xor_iff push_bit_xor ac_simps)

lemma crc_shift_pow_xor: "(crc_shift ^^ n) (x XOR y) = (crc_shift ^^ n) x XOR (crc_shift ^^ n) y"
  by (induction n) (simp_all add: crc_shift_xor)

lemma crc_shift_low: "k \<le> 8 \<Longrightarrow> (crc_shift ^^ k) (ucast (l :: byte)) = push_bit k (ucast l)"
proof (induction k)
  case 0
  then show ?case by simp
next
  case (Suc k)
  then have k: "k < 8" by simp
  have "\<not> bit (push_bit k (ucast l :: 16 word)) 15"
    using k by (auto simp add: bit_push_bit_iff bit_ucast_iff dest: bit_imp_le_length)
  then show ?case using Suc by (simp add: crc_shift_def push_bit_push_bit)
qed

lemma split_hi_lo: "(c :: 16 word) XOR push_bit 8 (ucast (b::byte)) = push_bit 8 (ucast (ucast (drop_bit 8 c) XOR b)) XOR ucast (ucast c :: byte)"
  by (rule bit_word_eqI) (auto simp add: bit_simps)

lemma push_low: "push_bit 8 (ucast (ucast (c :: 16 word) :: byte) :: 16 word) = push_bit 8 c"
  by (rule bit_word_eqI) (auto simp add: bit_simps)

lemma ff_mask: "(0xff :: int) = mask 8" "(0xffff :: int) = mask 16" by (simp_all add: mask_eq_exp_minus_1)

lemma crc_index_bits:
  "(drop_bit 8 (uint (c :: 16 word)) XOR uint (b :: byte)) AND 0xff = uint (ucast (drop_bit 8 c) XOR b)"
  unfolding ff_mask
  by (rule bit_eqI) (auto simp add: bit_simps dest: bit_imp_le_length)

lemma crc_update_bits:
  "0 \<le> t \<Longrightarrow> (push_bit 8 (uint (c :: 16 word)) XOR t) AND 0xffff = uint (push_bit 8 c XOR word_of_int t)"
  unfolding ff_mask
  by (rule bit_eqI) (auto simp add: bit_simps dest: bit_imp_le_length)


lemma crc_final_bits: "uint (c :: 16 word) AND 0xffff = uint c"
  unfolding ff_mask
  by (rule bit_eqI) (auto simp add: bit_simps dest: bit_imp_le_length)


lemma crc_shift_8: "(crc_shift ^^ 8) x = crc_shift (crc_shift (crc_shift (crc_shift (crc_shift (crc_shift (crc_shift (crc_shift x)))))))"
  by (simp add: eval_nat_numeral)

fun crctable_from :: "16 word \<Rightarrow> int list \<Rightarrow> bool" where
  "crctable_from w [] = True"
| "crctable_from w (v # vs) =
     ((crc_shift ^^ 8) (push_bit 8 w) = word_of_int v \<and> crctable_from (w + 1) vs)"

lemma crctable_from_nth:
  "crctable_from w vs \<Longrightarrow> i < length vs \<Longrightarrow>
     (crc_shift ^^ 8) (push_bit 8 (w + of_nat i)) = word_of_int (vs ! i)"
proof (induction vs arbitrary: w i)
  case Nil
  then show ?case by simp
next
  case (Cons v vs)
  show ?case
  proof (cases i)
    case 0
    with Cons.prems show ?thesis by simp
  next
    case (Suc k)
    with Cons.prems have "crctable_from (w + 1) vs" and "k < length vs" by simp_all
    then have "(crc_shift ^^ 8) (push_bit 8 (w + 1 + of_nat k)) = word_of_int (vs ! k)"
      by (rule Cons.IH)
    with Suc show ?thesis by (simp add: ac_simps)
  qed
qed

lemma crctable_rel: "crctable_from 0 crctable"
  unfolding crctable_def
  by (simp add: crc_shift_8 crc_shift_def)

lemma crctable_length: "length crctable = 256"
  by (simp add: crctable_def)

lemma crctable_entry:
  assumes "i < 256"
  shows "word_of_int (crctable ! i) = (crc_shift ^^ 8) (push_bit 8 (of_nat i))"
  using crctable_from_nth [OF crctable_rel, of i] assms by (simp add: crctable_length)

lemma crctable_nonneg: "i < 256 \<Longrightarrow> 0 \<le> crctable ! i"
proof -
  have "\<forall>v \<in> set crctable. 0 \<le> v" by (simp add: crctable_def)
  then show "i < 256 \<Longrightarrow> 0 \<le> crctable ! i" by (simp add: crctable_length)
qed

lemma crctable_byte:
  "word_of_int (crctable ! unat (h :: byte)) = (crc_shift ^^ 8) (push_bit 8 (ucast h))"
proof -
  have "unat h < 256" using unsigned_less [of h] by simp
  then show ?thesis using crctable_entry [of "unat h"] by simp
qed

lemma crc_ref_byte_table:
  "crc_ref_byte c b = push_bit 8 c XOR word_of_int (crctable ! unat (ucast (drop_bit 8 c) XOR b :: byte))"
proof -
  let ?h = "ucast (drop_bit 8 c) XOR b :: byte"
  have "crc_ref_byte c b = (crc_shift ^^ 8) (push_bit 8 (ucast ?h) XOR ucast (ucast c :: byte))"
    by (simp only: crc_ref_byte_def split_hi_lo)
  also have "\<dots> = (crc_shift ^^ 8) (push_bit 8 (ucast ?h)) XOR push_bit 8 (ucast (ucast c :: byte))"
    by (simp only: crc_shift_pow_xor crc_shift_low [OF order_refl])
  also have "\<dots> = word_of_int (crctable ! unat ?h) XOR push_bit 8 c"
    by (simp only: crctable_byte push_low)
  finally show ?thesis by (simp add: ac_simps)
qed

lemma calc_crc_uint: "calc_crc data (uint c) = uint (crc_ref data c)"
proof (induction data arbitrary: c)
  case Nil
  show ?case by (simp add: crc_final_bits)
next
  case (Cons b data)
  let ?h = "ucast (drop_bit 8 c) XOR b :: byte"
  have idx: "(drop_bit 8 (uint c) XOR uint b) AND 0xff = uint ?h"
    by (rule crc_index_bits)
  have lt: "unat ?h < 256" using unsigned_less [of ?h] by simp
  have upd: "(push_bit 8 (uint c) XOR crctable ! unat ?h) AND 0xffff = uint (crc_ref_byte c b)"
    by (simp only: crc_update_bits [OF crctable_nonneg [OF lt]] crc_ref_byte_table)
  show ?case
    by (simp only: calc_crc.simps crc_ref.simps Let_def idx nat_uint_eq upd Cons.IH)
qed


lemma crctable_range: "i < 256 \<Longrightarrow> crctable ! i < 65536"
proof -
  have "\<forall>v \<in> set crctable. v < 65536" by (simp add: crctable_def)
  then show "i < 256 \<Longrightarrow> crctable ! i < 65536" by (simp add: crctable_length)
qed

lemma crctable_is_crc_ref:
  assumes "i < 256"
  shows "crctable ! i = uint (crc_ref [of_nat i] 0)"
proof -
  have "(of_nat i :: byte) = of_nat i" ..
  have u: "(ucast (of_nat i :: byte) :: 16 word) = of_nat i"
    using assms by (simp add: unsigned_of_nat take_bit_nat_eq_self)
  have "uint (crc_ref [of_nat i] 0) = uint ((crc_shift ^^ 8) (push_bit 8 (of_nat i)))"
    by (simp add: crc_ref_byte_def u)
  also have "\<dots> = uint (word_of_int (crctable ! i) :: 16 word)"
    by (simp only: crctable_entry [OF assms])
  also have "\<dots> = crctable ! i"
    using crctable_nonneg [OF assms] crctable_range [OF assms]
    by (simp add: uint_word_of_int take_bit_int_eq_self)
  finally show ?thesis by simp
qed

text \<open>
  C6.  For every byte buffer and every seed in 0..65535, the table-driven
  \<^const>\<open>calc_crc\<close> of the source returns what the bitwise CCITT/XMODEM CRC
  \<^const>\<open>crc_ref\<close> (polynomial \<^verbatim>\<open>0x1021\<close>, most significant bit first, each byte XORed
  into the high byte of the register) returns from the same seed; the result is in
  0..65535; and every entry of the table is the bitwise CRC of its index byte.
\<close>

theorem calc_crc_bit_exact:
  "0 \<le> seed \<Longrightarrow> seed < 65536 \<Longrightarrow>
     calc_crc data seed = uint (crc_ref data (word_of_int seed))
     \<and> 0 \<le> calc_crc data seed \<and> calc_crc data seed \<le> 65535
     \<and> (\<forall>i < 256. crctable ! i = uint (crc_ref [of_nat i] 0))"
proof -
  assume seed: "0 \<le> seed" "seed < 65536"
  then have "uint (word_of_int seed :: 16 word) = seed"
    by (simp add: uint_word_of_int take_bit_int_eq_self)
  then have eq: "calc_crc data seed = uint (crc_ref data (word_of_int seed))"
    using calc_crc_uint [of data "word_of_int seed"] by simp
  have "uint (crc_ref data (word_of_int seed)) < 2 ^ 16"
    using uint_lt2p [of "crc_ref data (word_of_int seed)"] by simp
  with eq have "0 \<le> calc_crc data seed \<and> calc_crc data seed \<le> 65535" by simp
  with eq crctable_is_crc_ref show ?thesis by blast
qed

theorem calc_crc_bit_exact_witness:
  "calc_crc [0x68, 0x65, 0x6c, 0x6c, 0x6f] 0 = uint (crc_ref [0x68, 0x65, 0x6c, 0x6c, 0x6f] 0)
   \<and> calc_crc [0x68, 0x65, 0x6c, 0x6c, 0x6f] 0 \<le> 65535
   \<and> crctable ! 1 = uint (crc_ref [1] 0)"
proof -
  have seed: "(0::int) \<le> 0" "(0::int) < 65536" by simp_all
  have one: "(1::nat) < 256" by simp
  from calc_crc_bit_exact [OF seed, of "[0x68, 0x65, 0x6c, 0x6c, 0x6f]"] one
  show ?thesis by (auto simp del: calc_crc.simps crc_ref.simps)
qed


section \<open>The packet codec\<close>

lemma rx_take_exact: "rx_take (length bs) (map Some bs @ q) = (bs, q)"
  by (induction bs) simp_all

lemma getc_exact:
  "bs \<noteq> [] \<Longrightarrow> rx t = map Some bs @ q \<Longrightarrow> n = length bs \<Longrightarrow> getc n t = (Some bs, t\<lparr>rx := q\<rparr>)"
proof -
  assume ne: "bs \<noteq> []" and r: "rx t = map Some bs @ q" and n: "n = length bs"
  from ne obtain b bs' where bs: "bs = b # bs'" by (cases bs) auto
  have "rx_take n (rx t) = (bs, q)" unfolding r n by (rule rx_take_exact)
  with ne r bs show ?thesis by (simp add: getc_def)
qed

lemma getc1_Some: "rx t = Some b # q \<Longrightarrow> getc1 t = (Some b, t\<lparr>rx := q\<rparr>)"
  by (simp add: getc1_def)

lemma nat_ff_mask: "(0xff :: nat) = mask 8"
  by (simp add: mask_eq_exp_minus_1)

lemma nat_low_byte: "unat (of_nat (n AND 0xff) :: byte) = n AND 0xff"
  unfolding nat_ff_mask
  by (simp add: unsigned_of_nat flip: take_bit_eq_mask)

lemma nat_high_byte: "n < 65536 \<Longrightarrow> unat (of_nat (drop_bit 8 n) :: byte) = drop_bit 8 n"
proof -
  assume "n < 65536"
  then have "drop_bit 8 n < 2 ^ 8" by (simp add: drop_bit_eq_div)
  then show ?thesis by (simp add: unsigned_of_nat take_bit_nat_eq_self)
qed

lemma nat_hi_lo: "push_bit 8 (drop_bit 8 n) OR (n AND 0xff) = (n :: nat)"
  unfolding nat_ff_mask
  by (rule bit_eqI) (auto simp add: bit_simps)

lemma nat_low_small: "n < 256 \<Longrightarrow> n AND 0xff = (n :: nat)"
  unfolding nat_ff_mask by (simp add: take_bit_nat_eq_self flip: take_bit_eq_mask)

lemma recv_content_send_payload:
  assumes ps: "packet_size = 128 \<or> packet_size = 8192" and len: "length data \<le> packet_size"
    and sp: "send_payload (is_stx_of packet_size) packet_size c data = Inr payload"
  shows "recv_content (is_stx_of packet_size) payload = Inr data"
proof -
  have take: "take (length data) (ljust packet_size c data) = data"
    by (simp add: ljust_def)
  from ps show ?thesis
  proof
    assume p: "packet_size = 128"
    with len have "length data < 256" by simp
    then have l: "length data AND 0xff = length data" by (rule nat_low_small)
    from p sp have "payload = of_nat (length data AND 0xff) # ljust packet_size c data"
      by (simp add: send_payload_def is_stx_of_def)
    with p l take show ?thesis
      using nat_low_byte [of "length data"]
      by (simp add: recv_content_def is_stx_of_def)
  next
    assume p: "packet_size = 8192"
    with len have small: "length data < 65536" by simp
    then have "drop_bit 8 (length data) < 256" by (simp add: drop_bit_eq_div)
    with p sp have pl: "payload = [of_nat (drop_bit 8 (length data)), of_nat (length data AND 0xff)]
        @ ljust packet_size c data"
      by (simp add: send_payload_def is_stx_of_def)
    have "push_bit 8 (unat (of_nat (drop_bit 8 (length data)) :: byte))
        OR unat (of_nat (length data AND 0xff) :: byte) = length data"
      by (simp only: nat_high_byte [OF small] nat_low_byte nat_hi_lo)
    with p pl take show ?thesis
      by (simp add: recv_content_def is_stx_of_def)
  qed
qed

lemma calc_crc_range: "0 \<le> calc_crc data 0 \<and> calc_crc data 0 < 65536"
  using calc_crc_uint [of data 0] uint_lt2p [of "crc_ref data 0"] by simp

lemma int_hi_lo:
  assumes "0 \<le> (k::int)" "k < 65536"
  shows "push_bit 8 (uint (of_int (drop_bit 8 k) :: byte)) + uint (of_int (k AND 0xff) :: byte) = k"
proof -
  have hi: "uint (of_int (drop_bit 8 k) :: byte) = drop_bit 8 k"
    using assms by (simp add: uint_word_of_int take_bit_int_eq_self drop_bit_eq_div)
  have "k AND 0xff = take_bit 8 k"
    unfolding ff_mask by (simp add: take_bit_eq_mask)
  then have lo: "uint (of_int (k AND 0xff) :: byte) = take_bit 8 k"
    by (simp add: uint_word_of_int take_bit_eq_mod)
  have "push_bit 8 (drop_bit 8 k) + take_bit 8 k = k"
    by (simp add: push_bit_eq_mult drop_bit_eq_div take_bit_eq_mod)
  with hi lo show ?thesis by simp
qed

lemma verify_make_checksum:
  assumes "crc_mode \<le> 1" 
  shows "verify_recv_checksum crc_mode (payload @ make_send_checksum crc_mode payload) = Inr (True, payload)"
proof (cases "crc_mode = 0")
  case True
  have "uint (of_int (calc_checksum payload 0) :: byte) = calc_checksum payload 0"
    by (simp add: calc_checksum_def uint_word_of_int take_bit_eq_mod)
  with True show ?thesis
    by (simp add: verify_recv_checksum_def make_send_checksum_def)
next
  case False
  with calc_crc_range [of payload] int_hi_lo [of "calc_crc payload 0"] show ?thesis
    by (simp add: verify_recv_checksum_def make_send_checksum_def Let_def)
qed


text \<open>
  What \<^verbatim>\<open>recv\<close> does with one packet that the transport delivers whole, put together
  from the pieces above in the order of the source: the start byte (line 525), the
  sequence bytes, the block and its trailer (\<^const>\<open>recv_block\<close>), the declared length
  and the slice that is written (\<^const>\<open>recv_content\<close>).  \<open>Inr None\<close> is a packet that
  the receiver would not accept.
\<close>

definition decode :: "byte list \<Rightarrow> nat \<Rightarrow> nat \<Rightarrow> nat \<Rightarrow> pyerr + byte list option" where
  "decode packet crc_mode sequence packet_size =
     (case getc1 \<lparr>rx = map Some packet, tx = [], wr = []\<rparr> of
        (char, t) \<Rightarrow>
          if char = Some SOH \<or> char = Some STX
          then
            (case recv_block crc_mode packet_size sequence t of
               (Inl e, t') \<Rightarrow> Inl e
             | (Inr None, t') \<Rightarrow> Inr None
             | (Inr (Some data), t') \<Rightarrow>
                 (case recv_content (is_stx_of packet_size) data of
                    Inl e \<Rightarrow> Inl e
                  | Inr content \<Rightarrow> Inr (Some content)))
          else Inr None)"

lemma send_payload_length:
  "send_payload is_stx packet_size c data = Inr payload \<Longrightarrow> length data \<le> packet_size \<Longrightarrow>
     is_stx \<le> 1 \<Longrightarrow> length payload = 1 + is_stx + packet_size"
  by (auto simp add: send_payload_def ljust_def split: if_splits)

lemma send_payload_ok:
  assumes "packet_size = 128 \<or> packet_size = 8192" "length data \<le> packet_size"
  shows "\<exists>payload. send_payload (is_stx_of packet_size) packet_size c data = Inr payload"
proof -
  from assms have "length data < 65536" by auto
  then have "drop_bit 8 (length data) < 256" by (simp add: drop_bit_eq_div)
  then show ?thesis by (simp add: send_payload_def)
qed

lemma length_make_send_checksum: "crc_mode \<le> 1 \<Longrightarrow> length (make_send_checksum crc_mode d) = 1 + crc_mode"
  by (auto simp add: make_send_checksum_def Let_def)

lemma recv_read_seq_ok:
  assumes "sequence \<le> 255"
    and "rx t = Some (of_nat sequence) # Some (of_nat (0xff - sequence)) # q"
  shows "recv_read_seq t = ((Some (int sequence), Some (int sequence)), t\<lparr>rx := q\<rparr>)"
proof -
  have u: "uint (of_nat n :: byte) = int n" if "n < 256" for n
    using that by (simp add: unsigned_of_nat take_bit_nat_eq_self)
  have a: "uint (of_nat sequence :: byte) = int sequence"
    using assms(1) by (intro u) simp
  have "uint (of_nat (0xff - sequence) :: byte) = int (0xff - sequence)"
    by (rule u) simp
  also have "\<dots> = 0xff - int sequence" using assms(1) by simp
  finally have b: "0xff - uint (of_nat (0xff - sequence) :: byte) = int sequence" by simp
  have g1: "getc1 t = (Some (of_nat sequence), t\<lparr>rx := Some (of_nat (0xff - sequence)) # q\<rparr>)"
    using assms(2) by (rule getc1_Some)
  have g2: "getc1 (t\<lparr>rx := Some (of_nat (0xff - sequence)) # q\<rparr>)
      = (Some (of_nat (0xff - sequence)), t\<lparr>rx := q\<rparr>)"
    by (simp add: getc1_def)
  show ?thesis
    by (simp only: recv_read_seq_def g1 g2 option.case prod.case a b)
qed

lemma recv_block_encode:
  assumes ps: "packet_size = 128 \<or> packet_size = 8192" and len: "length data \<le> packet_size"
    and sq: "sequence \<le> 255" and cm: "crc_mode \<le> 1"
    and sp: "send_payload (is_stx_of packet_size) packet_size c data = Inr payload"
    and r: "rx t = map Some ([of_nat sequence, of_nat (0xff - sequence)] @ payload
               @ make_send_checksum crc_mode payload) @ q"
  shows "recv_block crc_mode packet_size sequence t = (Inr (Some payload), t\<lparr>rx := q\<rparr>)"
proof -
  let ?blk = "payload @ make_send_checksum crc_mode payload"
  let ?t1 = "t\<lparr>rx := map Some ?blk @ q\<rparr>"
  have stx: "is_stx_of packet_size \<le> 1" by (simp add: is_stx_of_def)
  have lp: "length payload = 1 + is_stx_of packet_size + packet_size"
    using sp len stx by (rule send_payload_length)
  have rs: "recv_read_seq t = ((Some (int sequence), Some (int sequence)), ?t1)"
    using sq r by (intro recv_read_seq_ok) simp_all
  have n: "1 + is_stx_of packet_size + packet_size + 1 + crc_mode = length ?blk"
    using lp cm by (simp add: length_make_send_checksum)
  have ne: "?blk \<noteq> []" using lp by auto
  have g: "getc (1 + is_stx_of packet_size + packet_size + 1 + crc_mode) ?t1
      = (Some ?blk, ?t1\<lparr>rx := q\<rparr>)"
    using ne _ n by (rule getc_exact) simp
  show ?thesis
    using g by (simp add: recv_block_def rs verify_make_checksum [OF cm])
qed

lemma encode_ok:
  assumes ps: "packet_size = 128 \<or> packet_size = 8192" and sq: "sequence \<le> 255"
    and sp: "send_payload (is_stx_of packet_size) packet_size c data = Inr payload"
  shows "encode sequence data packet_size c crc_mode =
     Inr ((if packet_size = 128 then SOH else STX) # [of_nat sequence, of_nat (0xff - sequence)]
          @ payload @ make_send_checksum crc_mode payload)"
  using ps sq sp by (auto simp add: encode_def make_send_header_def)

text \<open>
  C1.  Round trip of the codec: for both block sizes of the code (128 and 8192), every
  content of at most that many bytes, every sequence number in 0..255, every pad byte
  and both integrity modes (\<open>crc_mode\<close> 0 is the 8-bit checksum, 1 the CRC-16), \<^verbatim>\<open>send\<close>
  builds a packet, and the receiver's checks on that packet, with the same mode and the
  same expected sequence number, all pass and give back exactly the content.
\<close>

theorem codec_round_trip:
  assumes "packet_size = 128 \<or> packet_size = 8192" and "length content \<le> packet_size"
    and "sequence \<le> 255" and "crc_mode \<le> 1"
  shows "\<exists>packet. encode sequence content packet_size padc crc_mode = Inr packet
           \<and> decode packet crc_mode sequence packet_size = Inr (Some content)"
proof -
  from send_payload_ok [OF assms(1,2)] obtain payload
    where sp: "send_payload (is_stx_of packet_size) packet_size padc content = Inr payload" ..
  let ?rest = "[of_nat sequence, of_nat (0xff - sequence)] @ payload
                 @ make_send_checksum crc_mode payload"
  let ?start = "(if packet_size = 128 then SOH else STX)"
  let ?t = "\<lparr>rx = map Some ?rest, tx = [], wr = []\<rparr>"
  have e: "encode sequence content packet_size padc crc_mode = Inr (?start # ?rest)"
    using assms(1,3) sp by (rule encode_ok)
  have g: "getc1 \<lparr>rx = map Some (?start # ?rest), tx = [], wr = []\<rparr> = (Some ?start, ?t)"
    by (simp add: getc1_def)
  have rb: "recv_block crc_mode packet_size sequence ?t = (Inr (Some payload), ?t\<lparr>rx := []\<rparr>)"
    using assms sp by (intro recv_block_encode) simp_all
  have rc: "recv_content (is_stx_of packet_size) payload = Inr content"
    using assms(1,2) sp by (rule recv_content_send_payload)
  have "decode (?start # ?rest) crc_mode sequence packet_size = Inr (Some content)"
    unfolding decode_def g using rb rc by simp
  with e show ?thesis by blast
qed


theorem codec_round_trip_witness:
  "length [1, 2, 3 :: byte] \<le> 128
   \<and> (\<exists>packet. encode 1 [1, 2, 3] 128 0x1a 1 = Inr packet
          \<and> decode packet 1 1 128 = Inr (Some [1, 2, 3]))"
  using codec_round_trip [of 128 "[1, 2, 3]" 1 1 "0x1a"] by simp

lemma byte_pair_eq:
  assumes "0 \<le> (k::int)" "k < 65536"
  shows "(push_bit 8 (uint (a::byte)) + uint (b::byte) = k)
     = ([a, b] = [of_int (drop_bit 8 k), of_int (k AND 0xff)])"
proof
  assume "push_bit 8 (uint a) + uint b = k"
  then have k: "k = uint a * 256 + uint b" by (simp add: push_bit_eq_mult)
  have ub: "0 \<le> uint b" "uint b < 256" using uint_lt2p [of b] by simp_all
  have "drop_bit 8 k = uint a" unfolding k using ub by (simp add: drop_bit_eq_div)
  moreover have "k AND 0xff = uint b"
    unfolding ff_mask k using ub by (simp add: take_bit_eq_mod flip: take_bit_eq_mask)
  ultimately show "[a, b] = [of_int (drop_bit 8 k), of_int (k AND 0xff)]" by simp
next
  assume "[a, b] = [of_int (drop_bit 8 k), of_int (k AND 0xff)]"
  then have "a = of_int (drop_bit 8 k)" "b = of_int (k AND 0xff)" by simp_all
  with int_hi_lo [OF assms] show "push_bit 8 (uint a) + uint b = k" by simp
qed

lemma verify_recv_checksum_region:
  assumes "crc_mode \<le> 1" "length tr = 1 + crc_mode"
  shows "verify_recv_checksum crc_mode (d @ tr) = Inr (tr = make_send_checksum crc_mode d, d)"
proof (cases "crc_mode = 0")
  case True
  with assms obtain a where tr: "tr = [a]" by (cases tr) auto
  have r: "0 \<le> calc_checksum d 0" "calc_checksum d 0 < 256" by (simp_all add: calc_checksum_def)
  have "(uint a = calc_checksum d 0) = (a = of_int (calc_checksum d 0))"
  proof
    assume "uint a = calc_checksum d 0"
    then show "a = of_int (calc_checksum d 0)" by (metis word_of_int_uint)
  next
    assume "a = of_int (calc_checksum d 0)"
    then show "uint a = calc_checksum d 0"
      using r by (simp add: uint_word_of_int take_bit_int_eq_self)
  qed
  with True tr show ?thesis
    by (simp add: verify_recv_checksum_def make_send_checksum_def)
next
  case False
  with assms have "length tr = 2" by simp
  then obtain a b where tr: "tr = [a, b]"
    by (cases tr; cases "tl tr") auto
  from calc_crc_range [of d] byte_pair_eq [of "calc_crc d 0" a b] False tr show ?thesis
    by (simp add: verify_recv_checksum_def make_send_checksum_def Let_def)
qed


lemma send_payload_drop:
  "send_payload is_stx packet_size c data = Inr payload \<Longrightarrow> is_stx \<le> 1 \<Longrightarrow>
     drop (1 + is_stx) payload = ljust packet_size c data"
proof -
  assume sp: "send_payload is_stx packet_size c data = Inr payload" and "is_stx \<le> 1"
  then have "is_stx = 0 \<or> is_stx = 1" by arith
  with sp show ?thesis by (auto simp add: send_payload_def split: if_splits)
qed

text \<open>
  C8, as amended.  The trailer does not leave the length prefix out: in every packet
  that \<^verbatim>\<open>send\<close> builds, the trailer is the checksum or CRC of the whole region between
  the sequence pair and the trailer, which is the length prefix followed by the padded
  data; and the receiver recomputes it over that same region, everything it read but the
  trailer, and accepts exactly the trailer that the sender computes.
\<close>

theorem trailer_covers_prefix_and_payload:
  assumes "packet_size = 128 \<or> packet_size = 8192" and "length content \<le> packet_size"
    and "sequence \<le> 255" and "crc_mode \<le> 1"
  shows "\<exists>header region.
           encode sequence content packet_size padc crc_mode
             = Inr (header @ region @ make_send_checksum crc_mode region)
           \<and> length header = 3
           \<and> length region = 1 + is_stx_of packet_size + packet_size
           \<and> drop (1 + is_stx_of packet_size) region = ljust packet_size padc content
           \<and> (\<forall>trailer. length trailer = 1 + crc_mode \<longrightarrow>
                 verify_recv_checksum crc_mode (region @ trailer)
                   = Inr (trailer = make_send_checksum crc_mode region, region))"
proof -
  from send_payload_ok [OF assms(1,2)] obtain payload
    where sp: "send_payload (is_stx_of packet_size) packet_size padc content = Inr payload" ..
  have stx: "is_stx_of packet_size \<le> 1" by (simp add: is_stx_of_def)
  let ?header = "[if packet_size = 128 then SOH else STX, of_nat sequence, of_nat (0xff - sequence)]"
  have "encode sequence content packet_size padc crc_mode
      = Inr (?header @ payload @ make_send_checksum crc_mode payload)"
    using encode_ok [OF assms(1,3) sp, of crc_mode] by simp
  moreover have "length ?header = 3" by simp
  moreover have "length payload = 1 + is_stx_of packet_size + packet_size"
    using sp assms(2) stx by (rule send_payload_length)
  moreover have "drop (1 + is_stx_of packet_size) payload = ljust packet_size padc content"
    using sp stx by (rule send_payload_drop)
  moreover have "\<forall>trailer. length trailer = 1 + crc_mode \<longrightarrow>
      verify_recv_checksum crc_mode (payload @ trailer)
        = Inr (trailer = make_send_checksum crc_mode payload, payload)"
    using verify_recv_checksum_region [OF assms(4)] by blast
  ultimately show ?thesis by blast
qed

theorem trailer_covers_prefix_and_payload_witness:
  "\<exists>header region.
     encode 1 [1] 128 0x1a 0 = Inr (header @ region @ make_send_checksum 0 region)
     \<and> length header = 3
     \<and> length region = 1 + is_stx_of 128 + 128
     \<and> drop (1 + is_stx_of 128) region = ljust 128 0x1a [1]
     \<and> verify_recv_checksum 0 (region @ [232]) = Inr ([232] = make_send_checksum 0 region, region)"
proof -
  from trailer_covers_prefix_and_payload [of 128 "[1]" 1 0 "0x1a"]
  obtain header region where
    "encode 1 [1] 128 0x1a 0 = Inr (header @ region @ make_send_checksum 0 region)"
    "length header = 3" "length region = 1 + is_stx_of 128 + 128"
    "drop (1 + is_stx_of 128) region = ljust 128 0x1a [1]"
    "\<forall>trailer. length trailer = 1 + 0 \<longrightarrow>
       verify_recv_checksum 0 (region @ trailer) = Inr (trailer = make_send_checksum 0 region, region)"
    by auto
  moreover from this(5) have
    "verify_recv_checksum 0 (region @ [232]) = Inr ([232] = make_send_checksum 0 region, region)"
    by simp
  ultimately show ?thesis by blast
qed

text \<open>
  C8 as stated fails.  For the one-byte content \<open>[1]\<close> in a 128-byte block with the 8-bit
  checksum, the trailer that is sent is 232, the checksum with the length prefix; the
  checksum of the padded data alone is 231, and the receiver rejects a packet that
  carries it.
\<close>

theorem trailer_excludes_prefix_counterexample:
  "encode 1 [1] 128 0x1a 0 = Inr ([SOH, 1, 0xfe] @ [1] @ ljust 128 0x1a [1] @ [232])
   \<and> make_send_checksum 0 (ljust 128 0x1a [1]) = [231]
   \<and> make_send_checksum 0 ([1] @ ljust 128 0x1a [1]) = [232]
   \<and> verify_recv_checksum 0 ([1] @ ljust 128 0x1a [1] @ [232]) = Inr (True, [1] @ ljust 128 0x1a [1])
   \<and> verify_recv_checksum 0 ([1] @ ljust 128 0x1a [1] @ [231]) = Inr (False, [1] @ ljust 128 0x1a [1])"
  by code_simp



section \<open>The sender's retries for one block\<close>

lemma abort_2: "abort 2 t = put [CAN] (put [CAN] t)"
  by (simp add: numeral_2_eq_2)

lemma put_eq: "put d t = t\<lparr>tx := tx t @ [d], wr := tl (wr t)\<rparr>"
  by (cases "wr t") (simp_all add: put_def putc_def)

lemma getc1_eq:
  "getc1 t = (case rx t of [] \<Rightarrow> None | e # q \<Rightarrow> e, t\<lparr>rx := tl (rx t)\<rparr>)"
  by (cases "rx t"; cases "hd (rx t)") (auto simp add: getc1_def)

lemma send_packet_exhaust:
  assumes "k = nat (retry - error_count)" "error_count \<le> retry"
    and "\<forall>e \<in> set (take (Suc k) (rx t)). e \<noteq> Some ACK \<and> e \<noteq> Some CAN"
  shows "send_packet retry packet error_count cancel t =
     Inl (Some False,
          t\<lparr>rx := drop (Suc k) (rx t),
            tx := tx t @ replicate (Suc k) packet @ [[CAN], [CAN]],
            wr := drop (Suc k + 2) (wr t)\<rparr>)"
  using assms
proof (induction k arbitrary: error_count t)
  case 0
  then have e: "error_count = retry" by simp
  obtain c where c: "(case rx t of [] \<Rightarrow> None | e # q \<Rightarrow> e) = c" by simp
  with "0.prems"(3) have cc: "c \<noteq> Some ACK" "c \<noteq> Some CAN"
    by (auto split: list.splits)
  show ?case
    using cc c e
    by (subst send_packet.simps) (simp add: getc1_eq put_eq abort_2 drop_Suc tl_drop)
next
  case (Suc k)
  obtain c where c: "(case rx t of [] \<Rightarrow> None | e # q \<Rightarrow> e) = c" by simp
  with Suc.prems(3) have cc: "c \<noteq> Some ACK" "c \<noteq> Some CAN"
    by (auto split: list.splits)
  let ?t1 = "t\<lparr>tx := tx t @ [packet], wr := tl (wr t), rx := tl (rx t)\<rparr>"
  from Suc.prems have lt: "\<not> error_count + 1 > retry" by simp
  have k: "k = nat (retry - (error_count + 1))" using Suc.prems by simp
  have le: "error_count + 1 \<le> retry" using Suc.prems by simp
  have all: "\<forall>e \<in> set (take (Suc k) (rx ?t1)). e \<noteq> Some ACK \<and> e \<noteq> Some CAN"
    using Suc.prems(3) by (cases "rx t") auto
  have step: "send_packet retry packet error_count cancel t
      = send_packet retry packet (error_count + 1) cancel ?t1"
    using cc c lt
    by (subst send_packet.simps) (simp add: getc1_eq put_eq)
  show ?case
    unfolding step Suc.IH [OF k le all]
    by (simp add: drop_Suc tl_drop replicate_app_Cons_same)
qed


text \<open>
  C5, as amended.  For every block of \<^verbatim>\<open>send\<close> (the md5 block or a block read from the
  stream) and every \<open>retry \<ge> 0\<close>: if each of the first \<open>retry + 1\<close> answers of the
  transport is neither \<^verbatim>\<open>ACK\<close> nor \<^verbatim>\<open>CAN\<close> (a timeout counts as an answer), the loop that
  emits the packet writes the identical packet exactly \<open>retry + 1\<close> times, then the two
  \<^verbatim>\<open>CAN\<close> bytes of \<^verbatim>\<open>abort\<close>, and \<^verbatim>\<open>send\<close> returns \<^verbatim>\<open>False\<close>.
\<close>

theorem send_block_retry_exhaustion:
  assumes "0 \<le> retry" and "\<not> canceled ses"
    and "(data, md5_sent', stream') =
           (if \<not> md5_sent \<and> sequence = 0 then (md5, True, stream)
            else (take packet_size stream, md5_sent, drop packet_size stream))"
    and "data \<noteq> []"
    and "encode sequence data packet_size (pad ses) crc_mode = Inr packet"
    and "\<forall>e \<in> set (take (nat retry + 1) (rx t)). e \<noteq> Some ACK \<and> e \<noteq> Some CAN"
  shows "send_packet retry packet 0 cancel t =
           Inl (Some False,
                t\<lparr>rx := drop (nat retry + 1) (rx t),
                  tx := tx t @ replicate (nat retry + 1) packet @ [[CAN], [CAN]],
                  wr := drop (nat retry + 3) (wr t)\<rparr>)
         \<and> send_blocks retry packet_size crc_mode md5 sequence md5_sent cancel ses stream t =
           Inl (Inr (Some False), ses, stream',
                t\<lparr>rx := drop (nat retry + 1) (rx t),
                  tx := tx t @ replicate (nat retry + 1) packet @ [[CAN], [CAN]],
                  wr := drop (nat retry + 3) (wr t)\<rparr>)"
proof -
  have sp: "send_packet retry packet 0 cancel t =
           Inl (Some False,
                t\<lparr>rx := drop (nat retry + 1) (rx t),
                  tx := tx t @ replicate (nat retry + 1) packet @ [[CAN], [CAN]],
                  wr := drop (nat retry + 3) (wr t)\<rparr>)"
    using send_packet_exhaust [of "nat retry" retry 0 t packet cancel] assms(1,6)
    by (simp add: numeral_3_eq_3)
  show ?thesis
    using assms(2,4,5) assms(3) [symmetric]
    by (subst send_blocks.simps) (simp add: sp)
qed

theorem send_block_retry_exhaustion_witness:
  "send_blocks 2 128 0 [] 1 True False
       \<lparr>mode = ''xmodem'', mode_set = False, pad = 0x1a, canceled = False\<rparr> [9, 9]
       \<lparr>rx = [Some NAK, None, Some 0], tx = [], wr = []\<rparr>
   = Inl (Inr (Some False),
          \<lparr>mode = ''xmodem'', mode_set = False, pad = 0x1a, canceled = False\<rparr>, [],
          \<lparr>rx = [],
           tx = replicate 3 ([SOH, 1, 0xfe, 2, 9, 9] @ replicate 126 0x1a @ [224]) @ [[CAN], [CAN]],
           wr = []\<rparr>)"
proof -
  let ?ses = "\<lparr>mode = ''xmodem'', mode_set = False, pad = 0x1a, canceled = False\<rparr>"
  let ?t = "\<lparr>rx = [Some NAK, None, Some 0], tx = [], wr = []\<rparr>"
  let ?packet = "[SOH, 1, 0xfe, 2, 9, 9] @ replicate 126 0x1a @ [224]"
  have retry: "(0::int) \<le> 2" by simp
  have live: "\<not> canceled ?ses" by simp
  have block: "([9, 9], True, []) =
      (if \<not> True \<and> (1::nat) = 0 then ([], True, [9, 9 :: byte])
       else (take 128 [9, 9], True, drop 128 [9, 9]))" by simp
  have data: "[9, 9 :: byte] \<noteq> []" by simp
  have packet: "encode 1 [9, 9] 128 (pad ?ses) 0 = Inr ?packet" by code_simp
  have answers: "\<forall>e \<in> set (take (nat 2 + 1) (rx ?t)). e \<noteq> Some ACK \<and> e \<noteq> Some CAN"
    by (simp add: ctl_defs)
  from send_block_retry_exhaustion [OF retry live block data packet answers, of False]
  show ?thesis by (simp add: numeral_3_eq_3)
qed

text \<open>
  C5 as stated fails: \<^verbatim>\<open>CAN\<close> is an answer that is not \<^verbatim>\<open>ACK\<close>, and two of them end the
  transfer after two transmissions of the block, with no abort sequence, although
  \<open>retry\<close> is 16.
\<close>

theorem send_two_cans_counterexample:
  "CAN \<noteq> ACK \<and>
   send \<lparr>mode = ''xmodem'', mode_set = False, pad = 0x1a, canceled = False\<rparr>
        [1, 2, 3] (replicate 32 0x61) 16
        \<lparr>rx = [Some NAK, Some CAN, Some CAN], tx = [], wr = []\<rparr>
   = (Inr (Some False),
      \<lparr>mode = ''xmodem'', mode_set = False, pad = 0x1a, canceled = False\<rparr>,
      [1, 2, 3],
      \<lparr>rx = [],
       tx = replicate 2 ([SOH, 0, 0xff, 32] @ replicate 32 0x61 @ replicate 96 0x1a @ [0]),
       wr = []\<rparr>)"
  by code_simp



section \<open>Two CAN bytes at a block boundary\<close>

text \<open>
  C2.  The claim asks for the cancelled result, told apart from failure, when two
  \<^verbatim>\<open>CAN\<close> bytes arrive at a block boundary.  The docstrings name that result (\<^verbatim>\<open>None\<close>
  for \<^verbatim>\<open>send\<close>, \<^verbatim>\<open>-1\<close> for \<^verbatim>\<open>recv\<close>), but at the block boundary the code returns the
  value of a failure.  Four runs of the code, in this order:
  \<^item> \<^verbatim>\<open>send\<close>, block 0 acknowledged, then \<^verbatim>\<open>CAN\<close>, \<^verbatim>\<open>CAN\<close> in answer to block 1: the
    result is \<^verbatim>\<open>False\<close>, after two transmissions of block 1 and nothing else written;
  \<^item> \<^verbatim>\<open>send\<close>, \<^verbatim>\<open>CAN\<close>, \<^verbatim>\<open>CAN\<close> in its start sequence: the result is \<^verbatim>\<open>None\<close>;
  \<^item> \<^verbatim>\<open>recv\<close>, block 0 accepted, then \<^verbatim>\<open>CAN\<close>, \<^verbatim>\<open>CAN\<close>: the result is \<^verbatim>\<open>None\<close>, nothing is
    written after the \<^verbatim>\<open>ACK\<close> of block 0, and the second \<^verbatim>\<open>CAN\<close> is still unread;
  \<^item> \<^verbatim>\<open>recv\<close> with the session's \<^verbatim>\<open>canceled\<close> flag set: the result is \<^verbatim>\<open>-1\<close>.
\<close>

theorem two_cans_at_block_boundary:
  "send \<lparr>mode = ''xmodem'', mode_set = False, pad = 0x1a, canceled = False\<rparr>
        [1, 2, 3] (replicate 32 0x61) 16
        \<lparr>rx = [Some NAK, Some ACK, Some CAN, Some CAN], tx = [], wr = []\<rparr>
   = (Inr (Some False),
      \<lparr>mode = ''xmodem'', mode_set = False, pad = 0x1a, canceled = False\<rparr>, [],
      \<lparr>rx = [],
       tx = [[SOH, 0, 0xff, 32] @ replicate 32 0x61 @ replicate 96 0x1a @ [0],
             [SOH, 1, 0xfe, 3, 1, 2, 3] @ replicate 125 0x1a @ [187],
             [SOH, 1, 0xfe, 3, 1, 2, 3] @ replicate 125 0x1a @ [187]],
       wr = []\<rparr>)
   \<and> send \<lparr>mode = ''xmodem'', mode_set = False, pad = 0x1a, canceled = False\<rparr>
        [1, 2, 3] (replicate 32 0x61) 16
        \<lparr>rx = [Some CAN, Some CAN], tx = [], wr = []\<rparr>
   = (Inr None,
      \<lparr>mode = ''xmodem'', mode_set = False, pad = 0x1a, canceled = False\<rparr>, [1, 2, 3],
      \<lparr>rx = [], tx = [], wr = []\<rparr>)
   \<and> recv \<lparr>mode = ''xmodem'', mode_set = False, pad = 0x1a, canceled = False\<rparr>
        [] (replicate 32 0x62) 0 16
        \<lparr>rx = map Some ([SOH, 0, 0xff, 32] @ replicate 32 0x61 @ replicate 96 0x1a @ [0]
                         @ [CAN, CAN]),
         tx = [], wr = []\<rparr>
   = (Inr None,
      \<lparr>mode = ''xmodem'', mode_set = True, pad = 0x1a, canceled = False\<rparr>, [],
      \<lparr>rx = [Some CAN], tx = [[NAK], [ACK]], wr = []\<rparr>)
   \<and> recv \<lparr>mode = ''xmodem'', mode_set = False, pad = 0x1a, canceled = True\<rparr>
        [] (replicate 32 0x62) 0 16
        \<lparr>rx = map Some ([SOH, 0, 0xff, 32] @ replicate 32 0x61 @ replicate 96 0x1a @ [0]
                         @ [CAN, CAN]),
         tx = [], wr = []\<rparr>
   = (Inr (Some (- 1)),
      \<lparr>mode = ''xmodem'', mode_set = True, pad = 0x1a, canceled = False\<rparr>, [],
      \<lparr>rx = [], tx = [[NAK], [CAN], [CAN], [CAN]], wr = []\<rparr>)"
  by code_simp



section \<open>The read that skips a block with wrong sequence bytes\<close>

lemma rx_take_at_most: "rx_take n q = (bs, q') \<Longrightarrow> length bs \<le> n"
  by (induction n q arbitrary: bs q' rule: rx_take.induct) (auto split: prod.splits)

lemma getc_at_most: "length (rx t) - length (rx (snd (getc n t))) \<le> max n 1"
proof (cases "rx t")
  case Nil
  then show ?thesis by (simp add: getc_def)
next
  case (Cons e q)
  show ?thesis
  proof (cases e)
    case None
    with Cons show ?thesis by (simp add: getc_def)
  next
    case (Some b)
    obtain bs q' where rt: "rx_take n (rx t) = (bs, q')" by (cases "rx_take n (rx t)")
    from rx_take_at_most [OF rt] rx_take_length [OF rt] Cons Some rt show ?thesis
      by (auto simp add: getc_def)
  qed
qed

lemma recv_skip_block_exact:
  "rx t = map Some bs @ q \<Longrightarrow> length bs = packet_size + (1 + crc_mode) + 2 \<Longrightarrow>
     recv_skip_block packet_size crc_mode t = t\<lparr>rx := q\<rparr>"
proof -
  assume r: "rx t = map Some bs @ q" and l: "length bs = packet_size + (1 + crc_mode) + 2"
  then have "bs \<noteq> []" by auto
  from getc_exact [OF this r, of "2 + packet_size + 1 + crc_mode"] l
  show ?thesis by (simp add: recv_skip_block_def)
qed

text \<open>
  C7, as amended.  In the large-block mode (a packet size above 255, which has the
  two-byte length prefix), in a round of \<^verbatim>\<open>recv\<close>'s loop over the blocks that got its
  start byte: whenever the two sequence bytes are not both there and equal to the
  expected sequence number, the code issues one read for up to
  \<open>packet_size + trailer_size + 2\<close> bytes (\<open>trailer_size = 1 + crc_mode\<close>: 1 for the
  checksum, 2 for the CRC) and throws the result away, then goes on to the request for a
  retransmission.  That is the size of the rest of the block, the same size as the read at
  line 602 for a block whose sequence bytes are right.  The read discards exactly that
  many bytes when that many are waiting, and never more.
\<close>

theorem recv_mismatch_skip_large_block:
  assumes "255 < packet_size"
    and "\<not> canceled (r_session st)"
    and "recv_await retry (r_income_size st) 0 False (r_char st) (r_transport st) = Inr t"
    and "recv_read_seq t = ((seq1, seq2), t1)"
    and "\<not> (seq1 = seq2 \<and> seq2 = Some (int (r_sequence st)))"
  shows "recv_iter retry crc_mode packet_size md5 st
           = recv_retransmit st (recv_skip_block packet_size crc_mode t1)
         \<and> recv_skip_block packet_size crc_mode t1
             = snd (getc (1 + is_stx_of packet_size + packet_size + 1 + crc_mode) t1)
         \<and> 1 + is_stx_of packet_size + packet_size + 1 + crc_mode
             = packet_size + (1 + crc_mode) + 2
         \<and> length (rx t1) - length (rx (recv_skip_block packet_size crc_mode t1))
             \<le> packet_size + (1 + crc_mode) + 2
         \<and> (\<forall>bs q. rx t1 = map Some bs @ q \<and> length bs = packet_size + (1 + crc_mode) + 2
               \<longrightarrow> recv_skip_block packet_size crc_mode t1 = t1\<lparr>rx := q\<rparr>)"
proof -
  have stx: "is_stx_of packet_size = 1" using assms(1) by (simp add: is_stx_of_def)
  have rb: "recv_block crc_mode packet_size (r_sequence st) t
      = (Inr None, recv_skip_block packet_size crc_mode t1)"
    using assms(4,5) by (simp add: recv_block_def)
  have "recv_iter retry crc_mode packet_size md5 st
      = recv_retransmit st (recv_skip_block packet_size crc_mode t1)"
    using assms(2,3) by (simp add: recv_iter_def rb)
  moreover have "recv_skip_block packet_size crc_mode t1
      = snd (getc (1 + is_stx_of packet_size + packet_size + 1 + crc_mode) t1)"
    by (simp add: recv_skip_block_def stx)
  moreover have "1 + is_stx_of packet_size + packet_size + 1 + crc_mode
      = packet_size + (1 + crc_mode) + 2"
    by (simp add: stx)
  moreover have "length (rx t1) - length (rx (recv_skip_block packet_size crc_mode t1))
      \<le> packet_size + (1 + crc_mode) + 2"
    using getc_at_most [of t1 "2 + packet_size + 1 + crc_mode"]
    by (simp add: recv_skip_block_def)
  ultimately show ?thesis using recv_skip_block_exact by blast
qed

theorem recv_mismatch_skip_large_block_witness:
  "recv_iter 16 1 8192 []
     \<lparr>r_char = Some STX, r_sequence = 0, r_retrans = 17, r_md5_received = False,
      r_income_size = 0,
      r_session = \<lparr>mode = ''xmodem8k'', mode_set = True, pad = 0x1a, canceled = False\<rparr>,
      r_stream = [],
      r_transport = \<lparr>rx = map Some ([5, 5] @ replicate 8196 0x41 @ [0x42, 0x43]), tx = [], wr = []\<rparr>\<rparr>
   = recv_retransmit
       \<lparr>r_char = Some STX, r_sequence = 0, r_retrans = 17, r_md5_received = False,
        r_income_size = 0,
        r_session = \<lparr>mode = ''xmodem8k'', mode_set = True, pad = 0x1a, canceled = False\<rparr>,
        r_stream = [],
        r_transport = \<lparr>rx = map Some ([5, 5] @ replicate 8196 0x41 @ [0x42, 0x43]), tx = [], wr = []\<rparr>\<rparr>
       \<lparr>rx = [Some 0x42, Some 0x43], tx = [], wr = []\<rparr>
   \<and> recv_skip_block 8192 1 \<lparr>rx = map Some (replicate 8196 0x41 @ [0x42, 0x43]), tx = [], wr = []\<rparr>
       = \<lparr>rx = [Some 0x42, Some 0x43], tx = [], wr = []\<rparr>
   \<and> 1 + is_stx_of 8192 + 8192 + 1 + 1 = (8196 :: nat)"
proof -
  let ?t = "\<lparr>rx = map Some ([5, 5] @ replicate 8196 0x41 @ [0x42, 0x43]), tx = [], wr = []\<rparr>"
  let ?t1 = "\<lparr>rx = map Some (replicate 8196 0x41 @ [0x42, 0x43]), tx = [], wr = []\<rparr>"
  let ?st = "\<lparr>r_char = Some STX, r_sequence = 0, r_retrans = 17, r_md5_received = False,
      r_income_size = 0,
      r_session = \<lparr>mode = ''xmodem8k'', mode_set = True, pad = 0x1a, canceled = False\<rparr>,
      r_stream = [], r_transport = ?t\<rparr>"
  have large: "255 < (8192 :: nat)" by simp
  have live: "\<not> canceled (r_session ?st)" by simp
  have start: "recv_await 16 (r_income_size ?st) 0 False (r_char ?st) (r_transport ?st) = Inr ?t"
    by (subst recv_await.simps) simp
  have sq: "recv_read_seq ?t = ((Some 5, Some 250), ?t1)"
    by (simp add: recv_read_seq_def getc1_def)
  have wrong: "\<not> (Some (5::int) = Some 250 \<and> Some 250 = Some (int (r_sequence ?st)))" by simp
  have there: "rx ?t1 = map Some (replicate 8196 0x41) @ [Some 0x42, Some 0x43]
      \<and> length (replicate 8196 (0x41 :: byte)) = 8192 + (1 + 1) + 2" by simp
  from recv_mismatch_skip_large_block [OF large live start sq wrong, of 1 "[]"] there
  have "recv_iter 16 1 8192 [] ?st = recv_retransmit ?st (recv_skip_block 8192 1 ?t1)"
    and "recv_skip_block 8192 1 ?t1 = ?t1\<lparr>rx := [Some 0x42, Some 0x43]\<rparr>"
    and "1 + is_stx_of 8192 + 8192 + 1 + 1 = 8192 + (1 + 1) + (2::nat)"
    by blast+
  then show ?thesis by simp
qed

text \<open>
  C7 as stated fails in the large-block mode: after two wrong sequence bytes of an
  8192-byte block in CRC mode, with 8197 bytes waiting, the read discards 8196 bytes, the
  whole rest of the block, not \<open>8192 + 2 + 1\<close>.
\<close>

theorem recv_skip_block_large_counterexample:
  "recv_block 1 8192 0 \<lparr>rx = map Some ([5, 5] @ replicate 8196 0x41 @ [0x42]), tx = [], wr = []\<rparr>
     = (Inr None, \<lparr>rx = [Some 0x42], tx = [], wr = []\<rparr>)
   \<and> (8196::nat) \<noteq> 8192 + 2 + 1"
proof -
  let ?t = "\<lparr>rx = map Some ([5, 5] @ replicate 8196 0x41 @ [0x42]), tx = [], wr = []\<rparr>"
  let ?t1 = "\<lparr>rx = map Some (replicate 8196 0x41 @ [0x42]), tx = [], wr = []\<rparr>"
  have rs: "recv_read_seq ?t = ((Some 5, Some 250), ?t1)"
    by (simp add: recv_read_seq_def getc1_def)
  have "rx ?t1 = map Some (replicate 8196 0x41) @ [Some 0x42]" by simp
  moreover have "length (replicate 8196 (0x41 :: byte)) = 8192 + (1 + 1) + 2" by simp
  ultimately have "recv_skip_block 8192 1 ?t1 = ?t1\<lparr>rx := [Some 0x42]\<rparr>"
    by (rule recv_skip_block_exact)
  with rs have "recv_block 1 8192 0 ?t = (Inr None, \<lparr>rx = [Some 0x42], tx = [], wr = []\<rparr>)"
    by (simp add: recv_block_def)
  then show ?thesis by simp
qed


text \<open>
  For 128-byte blocks the amended claim says nothing.  There the rest of a block is
  \<open>packet_size + trailer_size + 1\<close> bytes, which is what line 602 reads, while line 597
  asks for one byte more: with a whole block and the start byte of the next one waiting
  after two wrong sequence bytes, the read takes that start byte too.
\<close>

lemma recv_skip_block_small_block:
  "recv_block 1 128 0 \<lparr>rx = map Some ([5, 5] @ replicate 131 0x41 @ [SOH, 0x42]), tx = [], wr = []\<rparr>
     = (Inr None, \<lparr>rx = [Some 0x42], tx = [], wr = []\<rparr>)
   \<and> 1 + is_stx_of 128 + 128 + 1 + 1 = (131 :: nat)"
  by code_simp


section \<open>What a call leaves on the session\<close>

lemma recv_start_session:
  "recv_start retry crc_mode error_count cancel ses t = r \<Longrightarrow>
     (case r of
        Inl (x, ses', t') \<Rightarrow> ses' = ses
      | Inr (char, crc_mode', ses', t') \<Rightarrow>
          (char = SOH \<or> char = STX) \<and>
          ses' = (if mode_set ses then ses
                  else ses\<lparr>mode := (if char = SOH then ''xmodem'' else ''xmodem8k''),
                         mode_set := True\<rparr>))"
proof (induction retry crc_mode error_count cancel ses t arbitrary: r rule: recv_start.induct)
  case (1 retry crc_mode error_count cancel ses t)
  note unf = "1.prems" [unfolded recv_start.simps [of retry crc_mode error_count cancel ses t]]
  show ?case
    using unf "1.IH"
    by (auto simp add: Let_def split: if_splits prod.splits sum.splits)
qed

text \<open>Two sessions agree on the mode, on whether it is locked, and on the pad byte.\<close>

definition same_mode :: "session \<Rightarrow> session \<Rightarrow> bool" where
  "same_mode s s' = (mode s' = mode s \<and> mode_set s' = mode_set s \<and> pad s' = pad s)"

lemma same_mode_refl [simp]: "same_mode s s"
  by (simp add: same_mode_def)

lemma same_mode_canceled [simp]: "same_mode s (s\<lparr>canceled := c\<rparr>)"
  by (simp add: same_mode_def)

lemma recv_retransmit_session:
  "recv_retransmit st t = Inl (x, st') \<Longrightarrow> r_session st' = r_session st"
  "recv_retransmit st t = Inr st' \<Longrightarrow> r_session st' = r_session st"
  by (auto simp add: recv_retransmit_def Let_def split: if_splits prod.splits)

lemma recv_valid_session:
  "recv_valid retry is_stx md5 data st t = Inl (x, st') \<Longrightarrow> r_session st' = r_session st"
  "recv_valid retry is_stx md5 data st t = Inr st' \<Longrightarrow> r_session st' = r_session st"
  by (auto simp add: recv_valid_def recv_ack_def split: if_splits prod.splits sum.splits)

lemma recv_iter_session:
  "recv_iter retry crc_mode packet_size md5 st = Inl (x, st') \<Longrightarrow>
     same_mode (r_session st) (r_session st')"
  "recv_iter retry crc_mode packet_size md5 st = Inr st' \<Longrightarrow>
     same_mode (r_session st) (r_session st')"
  by (auto simp add: recv_iter_def same_mode_def
      split: if_splits prod.splits sum.splits option.splits
      dest!: recv_retransmit_session recv_valid_session)

lemma same_mode_trans: "same_mode a b \<Longrightarrow> same_mode b c \<Longrightarrow> same_mode a c"
  by (simp add: same_mode_def)

lemma recv_blocks_session:
  "recv_blocks retry crc_mode packet_size md5 st = (x, st') \<Longrightarrow>
     same_mode (r_session st) (r_session st')"
proof (induction retry crc_mode packet_size md5 st rule: recv_blocks.induct)
  case (1 retry crc_mode packet_size md5 st)
  note unf = "1.prems" [unfolded recv_blocks.simps [of retry crc_mode packet_size md5 st]]
  show ?case
  proof (cases "recv_iter retry crc_mode packet_size md5 st")
    case (Inl r)
    with unf have "recv_iter retry crc_mode packet_size md5 st = Inl (x, st')" by simp
    then show ?thesis by (rule recv_iter_session)
  next
    case (Inr st1)
    with unf have "recv_blocks retry crc_mode packet_size md5 st1 = (x, st')" by simp
    with Inr "1.IH" have "same_mode (r_session st1) (r_session st')" by simp
    with recv_iter_session(2) [OF Inr] show ?thesis by (rule same_mode_trans)
  qed
qed

text \<open>The session in a result of \<^const>\<open>send_blocks\<close> agrees with the one it started from.\<close>

definition send_blocks_same ::
  "session \<Rightarrow> ((pyerr + bool option) \<times> session \<times> byte list \<times> transport) + (session \<times> byte list \<times> transport) \<Rightarrow> bool" where
  "send_blocks_same ses r =
     (case r of Inl (x, ses', stream', t') \<Rightarrow> same_mode ses ses'
      | Inr (ses', stream', t') \<Rightarrow> same_mode ses ses')"

lemma send_blocks_session:
  "send_blocks_same ses (send_blocks retry packet_size crc_mode md5 sequence md5_sent cancel ses stream t)"
proof (induction retry packet_size crc_mode md5 sequence md5_sent cancel ses stream t
    rule: send_blocks.induct)
  case (1 retry packet_size crc_mode md5 sequence md5_sent cancel ses stream t)
  show ?case
  proof (cases "canceled ses")
    case True
    then show ?thesis by (subst send_blocks.simps) (simp add: send_blocks_same_def)
  next
    case live: False
    obtain data md5_sent' stream' where blk: "(data, md5_sent', stream') =
        (if \<not> md5_sent \<and> sequence = 0 then (md5, True, stream)
         else (take packet_size stream, md5_sent, drop packet_size stream))"
      by (cases "\<not> md5_sent \<and> sequence = 0") auto
    show ?thesis
    proof (cases "data = []")
      case True
      with live blk [symmetric] show ?thesis
        by (subst send_blocks.simps) (simp add: send_blocks_same_def)
    next
      case ne: False
      show ?thesis
      proof (cases "encode sequence data packet_size (pad ses) crc_mode")
        case (Inl e)
        with live ne blk [symmetric] show ?thesis
          by (subst send_blocks.simps) (simp add: send_blocks_same_def)
      next
        case enc: (Inr packet)
        show ?thesis
        proof (cases "send_packet retry packet 0 cancel t")
          case (Inl a)
          with live ne enc blk [symmetric] show ?thesis
            by (subst send_blocks.simps) (simp add: send_blocks_same_def split: prod.splits)
        next
          case sp: (Inr b)
          obtain cancel' t' where b: "(cancel', t') = b" by (cases b) auto
          from "1.IH" [OF live blk refl ne enc sp b]
          have "send_blocks_same ses
            (send_blocks retry packet_size crc_mode md5 ((sequence + 1) mod 256) md5_sent'
               cancel' ses stream' t')" .
          with live ne enc sp b [symmetric] blk [symmetric] show ?thesis
            by (subst send_blocks.simps) simp
        qed
      qed
    qed
  qed
qed

lemma send_session: "same_mode ses (fst (snd (send ses stream md5 retry t)))"
proof (cases "packet_size_of (mode ses)")
  case None
  then show ?thesis by (simp add: send_def)
next
  case (Some packet_size)
  show ?thesis
  proof (cases "send_start retry 0 False t")
    case (Inl a)
    with Some show ?thesis by (simp add: send_def split: prod.splits)
  next
    case (Inr b)
    obtain crc_mode cancel t1 where b: "b = (crc_mode, cancel, t1)" by (cases b) auto
    from send_blocks_session [of ses retry packet_size crc_mode md5 0 False cancel stream t1]
    show ?thesis
      using Some Inr b
      by (auto simp add: send_def send_blocks_same_def split: sum.splits prod.splits)
  qed
qed

lemma recv_session:
  assumes "recv_start retry crc_mode 0 False ses t = r"
  shows "case r of
           Inl a \<Rightarrow> fst (snd (recv ses stream md5 crc_mode retry t)) = ses
         | Inr (char, crc_mode', ses1, t1) \<Rightarrow>
             same_mode ses1 (fst (snd (recv ses stream md5 crc_mode retry t)))"
proof (cases r)
  case (Inl a)
  with assms recv_start_session [OF assms] show ?thesis
    by (auto simp add: recv_def split: prod.splits)
next
  case (Inr b)
  obtain char crc_mode' ses1 t1 where b: "b = (char, crc_mode', ses1, t1)" by (cases b) auto
  show ?thesis
  proof (cases "packet_size_of (mode ses1)")
    case None
    with assms Inr b show ?thesis by (simp add: recv_def)
  next
    case (Some packet_size)
    let ?st = "\<lparr>r_char = Some char, r_sequence = 0, r_retrans = retry + 1,
        r_md5_received = False, r_income_size = 0, r_session = ses1,
        r_stream = stream, r_transport = t1\<rparr>"
    obtain x st' where rb: "recv_blocks retry crc_mode' packet_size md5 ?st = (x, st')"
      by (cases "recv_blocks retry crc_mode' packet_size md5 ?st")
    from recv_blocks_session [OF rb] have "same_mode ses1 (r_session st')" by simp
    with assms Inr b Some rb show ?thesis by (simp add: recv_def)
  qed
qed

text \<open>
  C9, as amended.  \<^verbatim>\<open>send\<close> leaves the session's mode and \<^verbatim>\<open>mode_set\<close> as they were.
  \<^verbatim>\<open>recv\<close> leaves them as they were when \<^verbatim>\<open>mode_set\<close> was already true at entry.  When it
  was false and the start sequence of \<^verbatim>\<open>recv\<close> gets its start byte, the session keeps,
  after the call, \<^verbatim>\<open>mode_set = True\<close> and the mode of that byte (\<^verbatim>\<open>SOH\<close>: \<^verbatim>\<open>'xmodem'\<close>,
  \<^verbatim>\<open>STX\<close>: \<^verbatim>\<open>'xmodem8k'\<close>); \<^verbatim>\<open>clear_mode_set\<close> is the method that undoes the lock.
\<close>

theorem session_mode_after_call:
  "same_mode ses (fst (snd (send ses stream md5 retry t)))
   \<and> (mode_set ses \<longrightarrow> same_mode ses (fst (snd (recv ses stream' md5' crc_mode retry' t'))))
   \<and> (\<forall>char crc_mode' ses1 t1.
        \<not> mode_set ses \<and> recv_start retry' crc_mode 0 False ses t' = Inr (char, crc_mode', ses1, t1)
        \<longrightarrow> mode_set (fst (snd (recv ses stream' md5' crc_mode retry' t')))
            \<and> mode (fst (snd (recv ses stream' md5' crc_mode retry' t')))
                = (if char = SOH then ''xmodem'' else ''xmodem8k''))"
proof (intro conjI allI impI)
  show "same_mode ses (fst (snd (send ses stream md5 retry t)))" by (rule send_session)
next
  assume locked: "mode_set ses"
  obtain r where r: "recv_start retry' crc_mode 0 False ses t' = r" by simp
  from recv_session [OF r, of stream' md5'] recv_start_session [OF r] locked
  show "same_mode ses (fst (snd (recv ses stream' md5' crc_mode retry' t')))"
    by (cases r) (auto split: prod.splits)
next
  fix char crc_mode' ses1 t1
  assume a: "\<not> mode_set ses \<and> recv_start retry' crc_mode 0 False ses t' = Inr (char, crc_mode', ses1, t1)"
  then have r: "recv_start retry' crc_mode 0 False ses t' = Inr (char, crc_mode', ses1, t1)" by simp
  from recv_start_session [OF r] a
  have s1: "ses1 = ses\<lparr>mode := (if char = SOH then ''xmodem'' else ''xmodem8k''), mode_set := True\<rparr>"
    by simp
  from recv_session [OF r, of stream' md5']
  have sm: "same_mode ses1 (fst (snd (recv ses stream' md5' crc_mode retry' t')))" by simp
  from s1 sm show "mode_set (fst (snd (recv ses stream' md5' crc_mode retry' t')))"
    by (simp add: same_mode_def)
  from s1 sm show "mode (fst (snd (recv ses stream' md5' crc_mode retry' t')))
      = (if char = SOH then ''xmodem'' else ''xmodem8k'')"
    by (simp add: same_mode_def)
qed


theorem session_mode_after_call_witness:
  "mode (fst (snd (send \<lparr>mode = ''xmodem'', mode_set = True, pad = 0x1a, canceled = False\<rparr>
                     [1, 2, 3] (replicate 32 0x61) 16
                     \<lparr>rx = [Some NAK, Some ACK, Some ACK, Some ACK], tx = [], wr = []\<rparr>)))
     = ''xmodem''
   \<and> mode (fst (snd (recv \<lparr>mode = ''xmodem'', mode_set = True, pad = 0x1a, canceled = False\<rparr>
                     [] (replicate 32 0x62) 0 16
                     \<lparr>rx = [Some STX, Some EOT], tx = [], wr = []\<rparr>)))
     = ''xmodem''
   \<and> mode_set (fst (snd (recv \<lparr>mode = ''xmodem'', mode_set = False, pad = 0x1a, canceled = False\<rparr>
                     [] (replicate 32 0x62) 0 16
                     \<lparr>rx = [Some STX, Some EOT], tx = [], wr = []\<rparr>)))
   \<and> mode (fst (snd (recv \<lparr>mode = ''xmodem'', mode_set = False, pad = 0x1a, canceled = False\<rparr>
                     [] (replicate 32 0x62) 0 16
                     \<lparr>rx = [Some STX, Some EOT], tx = [], wr = []\<rparr>)))
     = ''xmodem8k''"
proof -
  let ?locked = "\<lparr>mode = ''xmodem'', mode_set = True, pad = 0x1a, canceled = False\<rparr>"
  let ?free = "\<lparr>mode = ''xmodem'', mode_set = False, pad = 0x1a, canceled = False\<rparr>"
  let ?t = "\<lparr>rx = [Some STX, Some EOT], tx = [], wr = []\<rparr>"
  have start: "\<not> mode_set ?free \<and> recv_start 16 0 0 False ?free ?t
      = Inr (STX, 0, ?free\<lparr>mode := ''xmodem8k'', mode_set := True\<rparr>,
             \<lparr>rx = [Some EOT], tx = [[NAK]], wr = []\<rparr>)"
    by (subst recv_start.simps) (simp add: putc_def getc1_def)
  have locked: "mode_set ?locked" by simp
  from session_mode_after_call
    [of ?locked "[1, 2, 3]" "replicate 32 0x61" 16
        "\<lparr>rx = [Some NAK, Some ACK, Some ACK, Some ACK], tx = [], wr = []\<rparr>"
        "[]" "replicate 32 0x62" 0 16 ?t] locked
  have a: "same_mode ?locked (fst (snd (send ?locked [1, 2, 3] (replicate 32 0x61) 16
        \<lparr>rx = [Some NAK, Some ACK, Some ACK, Some ACK], tx = [], wr = []\<rparr>)))"
    and b: "same_mode ?locked (fst (snd (recv ?locked [] (replicate 32 0x62) 0 16 ?t)))"
    by blast+
  from session_mode_after_call
    [of ?free "[]" "[]" 0 ?t "[]" "replicate 32 0x62" 0 16 ?t] start
  have c: "mode_set (fst (snd (recv ?free [] (replicate 32 0x62) 0 16 ?t)))
      \<and> mode (fst (snd (recv ?free [] (replicate 32 0x62) 0 16 ?t)))
          = (if STX = SOH then ''xmodem'' else ''xmodem8k'')"
    by blast
  from a b c show ?thesis by (simp add: same_mode_def)
qed

text \<open>
  C9 as stated fails: a \<^verbatim>\<open>recv\<close> that completes (block 0, one data block, \<^verbatim>\<open>EOT\<close>) on
  a session created with mode \<^verbatim>\<open>'xmodem8k'\<close> and \<^verbatim>\<open>mode_set = False\<close> leaves the session
  with mode \<^verbatim>\<open>'xmodem'\<close> and \<^verbatim>\<open>mode_set = True\<close>.
\<close>

theorem recv_mode_persists_counterexample:
  "recv \<lparr>mode = ''xmodem8k'', mode_set = False, pad = 0x1a, canceled = False\<rparr>
        [] (replicate 32 0x62) 0 16
        \<lparr>rx = map Some ([SOH, 0, 0xff, 32] @ replicate 32 0x61 @ replicate 96 0x1a @ [0]
                         @ [SOH, 1, 0xfe, 3, 1, 2, 3] @ replicate 125 0x1a @ [187]
                         @ [EOT]),
         tx = [], wr = []\<rparr>
   = (Inr (Some 128),
      \<lparr>mode = ''xmodem'', mode_set = True, pad = 0x1a, canceled = False\<rparr>,
      [1, 2, 3],
      \<lparr>rx = [], tx = [[NAK], [ACK], [ACK], [ACK]], wr = []\<rparr>)
   \<and> mode \<lparr>mode = ''xmodem'', mode_set = True, pad = 0x1a, canceled = False\<rparr>
       \<noteq> mode \<lparr>mode = ''xmodem8k'', mode_set = False, pad = 0x1a, canceled = False\<rparr>"
  by code_simp



section \<open>Block 0 and the md5 short circuit\<close>


























section \<open>The byte count that recv returns\<close>

text \<open>
  At the top of the loop over the blocks an \<^verbatim>\<open>EOT\<close> makes \<^verbatim>\<open>recv\<close> write \<^verbatim>\<open>ACK\<close> and
  return its counter \<^verbatim>\<open>income_size\<close> (lines 527-534).
\<close>

lemma recv_eot:
  "\<not> canceled (r_session st) \<Longrightarrow> r_char st = Some EOT \<Longrightarrow>
     recv_iter retry crc_mode packet_size md5 st
       = Inl (Inr (Some (r_income_size st)), st\<lparr>r_transport := put [ACK] (r_transport st)\<rparr>)"
  by (simp add: recv_iter_def recv_await.simps [of retry "r_income_size st" 0 False "Some EOT"])

text \<open>
  For a data block the counter grows by the length of what was read without the trailer
  and the length prefix, padding included, while the stream gets the declared length
  only (lines 623-625).
\<close>

lemma recv_data_block_count:
  "r_md5_received st \<or> r_sequence st \<noteq> 0 \<Longrightarrow> recv_content is_stx data = Inr content \<Longrightarrow>
     recv_valid retry is_stx md5 data st t
       = Inr (recv_ack
               (st\<lparr>r_retrans := retry + 1,
                  r_income_size := r_income_size st + int (length data) - 1 - int is_stx,
                  r_stream := r_stream st @ content\<rparr>) t)"
  by (auto simp add: recv_valid_def)







end
